theory Spec2Isabelle
  imports Main "HOL-Library.Word" "HOL-Library.Monad_Syntax"
begin

unbundle bit_operations_syntax

section \<open>Machine arithmetic, debug checks and compiler builtins\<close>

text \<open>
  Unsigned 32-bit values (\<open>uint32_t\<close>) are natural numbers; every operation of the source
  that can leave the range is written with its wrap-around.  A 32-bit \<open>int\<close> is
  represented by its residue modulo \<open>2 ^ 32\<close> (two's complement), which is exact for
  addition, subtraction, negation and the conversions to \<open>uint32_t\<close> the source performs.
  The 64-bit storage words of the bit vector are \<open>64 word\<close>.
\<close>

definition u32 :: "nat \<Rightarrow> nat" where
  "u32 x = x mod 2 ^ 32"

definition u32_sub :: "nat \<Rightarrow> nat \<Rightarrow> nat" where
  "u32_sub a b = nat ((int a - int b) mod 2 ^ 32)"

definition u32_neg :: "nat \<Rightarrow> nat" where
  "u32_neg a = nat ((- int a) mod 2 ^ 32)"

definition u64_sub :: "nat \<Rightarrow> nat \<Rightarrow> nat" where
  "u64_sub a b = nat ((int a - int b) mod 2 ^ 64)"

text \<open>
  \<open>DFST_CHECK(x)\<close> is \<open>assert(x)\<close> (log.h): with assertions compiled in (\<open>dbg\<close>) a
  failed check aborts, otherwise the check is skipped.  \<open>None\<close> stands for an aborted
  call or for behaviour the language leaves undefined (a read outside an array, a
  violated precondition of a builtin).
\<close>

definition DFST_CHECK :: "bool \<Rightarrow> bool \<Rightarrow> unit option" where
  "DFST_CHECK dbg c = (if dbg \<and> \<not> c then None else Some ())"

text \<open>Reading element \<open>i\<close> of an array or vector; outside its bounds the read is undefined.\<close>

definition vec_at :: "'a list \<Rightarrow> nat \<Rightarrow> 'a option" where
  "vec_at xs i = (if i < length xs then Some (xs ! i) else None)"

text \<open>The positions of the set bits of a 64-bit word, in increasing order.\<close>

definition set_bits64 :: "64 word \<Rightarrow> nat list" where
  "set_bits64 w = filter (bit w) [0..<64]"

text \<open>The compiler builtins \<open>__builtin_popcountll\<close> and \<open>__builtin_ctzll\<close>
  (the latter is undefined on 0).\<close>

definition builtin_popcountll :: "64 word \<Rightarrow> nat" where
  "builtin_popcountll w = length (set_bits64 w)"

definition builtin_ctzll :: "64 word \<Rightarrow> nat option" where
  "builtin_ctzll w = (if w = 0 then None else Some (hd (set_bits64 w)))"

text \<open>
  Modelled from the spec: \<open>nth_bit\<close> of fst/extensions/ngram/nthbit.h, which is not among the
  sources.  Section 4.1: \<open>nth_bit(w, k)\<close> returns the bit position (0..63) of the \<open>k\<close>-th
  (0-based) set bit of \<open>w\<close>; precondition \<open>k < popcount(w)\<close>.  Outside the precondition the
  result is undefined.
\<close>

definition nth_bit :: "64 word \<Rightarrow> nat \<Rightarrow> nat option" where
  "nth_bit w k = (if k < builtin_popcountll w then Some (set_bits64 w ! k) else None)"

text \<open>\<open>kLowBitsMasks[i] = (uint64_t{1} << i) - 1\<close>, for \<open>i < 64\<close>.\<close>

definition kLowBitsMasks :: "nat \<Rightarrow> 64 word" where
  "kLowBitsMasks i = push_bit i 1 - 1"

section \<open>RankIndexEntry\<close>

abbreviation (input) kStorageBitSize :: nat where "kStorageBitSize \<equiv> 64"
abbreviation (input) kStorageLogBitSize :: nat where "kStorageLogBitSize \<equiv> 6"
abbreviation (input) kUnitsPerRankIndexEntry :: nat where "kUnitsPerRankIndexEntry \<equiv> 8"
abbreviation (input) kBitsPerRankIndexEntry :: nat where "kBitsPerRankIndexEntry \<equiv> 512"
abbreviation (input) kStorageBlockMask :: nat where "kStorageBlockMask \<equiv> 63"
abbreviation (input) kBitsPerSelect0Block :: nat where "kBitsPerSelect0Block \<equiv> 512"
abbreviation (input) kBitsPerSelect1Block :: nat where "kBitsPerSelect1Block \<equiv> 512"
abbreviation (input) kMaxLinearSearchBlocks :: nat where "kMaxLinearSearchBlocks \<equiv> 8"

text \<open>
  The private members of \<open>RankIndexEntry\<close> in declaration order (a member \<open>x_\<close>
  of the source is written \<open>x_'\<close>): a \<open>uint32_t\<close>, a \<open>uint16_t\<close> and the \<open>uint8_t [2][3]\<close> array \<open>relative_ones_counts_\<close>, whose element
  \<open>[i][j]\<close> is the field \<open>relative_ones_counts_i_j\<close>.
\<close>

record RankIndexEntry =
  absolute_ones_count_' :: "32 word"
  relative_ones_count_4_' :: "16 word"
  relative_ones_counts_0_0 :: "8 word"
  relative_ones_counts_0_1 :: "8 word"
  relative_ones_counts_0_2 :: "8 word"
  relative_ones_counts_1_0 :: "8 word"
  relative_ones_counts_1_1 :: "8 word"
  relative_ones_counts_1_2 :: "8 word"

text \<open>\<open>RankIndexEntry() = default\<close>: every member is initialised to 0.\<close>

definition default_entry :: RankIndexEntry where
  "default_entry =
     \<lparr>absolute_ones_count_' = 0, relative_ones_count_4_' = 0,
      relative_ones_counts_0_0 = 0, relative_ones_counts_0_1 = 0, relative_ones_counts_0_2 = 0,
      relative_ones_counts_1_0 = 0, relative_ones_counts_1_1 = 0, relative_ones_counts_1_2 = 0\<rparr>"

text \<open>The object representation of an entry on a little-endian machine: 12 bytes.\<close>

definition entry_bytes :: "RankIndexEntry \<Rightarrow> 8 word list" where
  "entry_bytes e =
     [ucast (absolute_ones_count_' e), ucast (drop_bit 8 (absolute_ones_count_' e)),
      ucast (drop_bit 16 (absolute_ones_count_' e)), ucast (drop_bit 24 (absolute_ones_count_' e)),
      ucast (relative_ones_count_4_' e), ucast (drop_bit 8 (relative_ones_count_4_' e)),
      relative_ones_counts_0_0 e, relative_ones_counts_0_1 e, relative_ones_counts_0_2 e,
      relative_ones_counts_1_0 e, relative_ones_counts_1_1 e, relative_ones_counts_1_2 e]"

text \<open>\<open>UnalignedLoad<uint32_t>\<close>: four bytes copied from offset \<open>off\<close> of the object, read
  little-endian.  A load that leaves the object is undefined.\<close>

definition UnalignedLoad32 :: "8 word list \<Rightarrow> nat \<Rightarrow> 32 word option" where
  "UnalignedLoad32 bs off =
     (if off + 4 \<le> length bs
      then Some (ucast (bs ! off) OR push_bit 8 (ucast (bs ! (off + 1)))
                 OR push_bit 16 (ucast (bs ! (off + 2))) OR push_bit 24 (ucast (bs ! (off + 3))))
      else None)"

definition absolute_ones_count :: "RankIndexEntry \<Rightarrow> nat" where
  "absolute_ones_count e = unat (absolute_ones_count_' e)"

text \<open>
  The general getter.  \<open>&relative_ones_counts_[k >> 2][0] - 1\<close> is byte
  \<open>6 + 3 * (k >> 2) - 1\<close> of the entry; \<open>assert(k < 8)\<close> guards it.
\<close>

definition relative_ones_count :: "bool \<Rightarrow> RankIndexEntry \<Rightarrow> nat \<Rightarrow> nat option" where
  "relative_ones_count dbg e k =
     do {
       _ \<leftarrow> DFST_CHECK dbg (k < 8);
       let c = (if k < 4 then 0 else unat (relative_ones_count_4_' e));
       relative_ones_counts_8x4 \<leftarrow> UnalignedLoad32 (entry_bytes e) (5 + 3 * (k div 4));
       let cleared = relative_ones_counts_8x4 AND NOT 255;
       Some (u32 (c + unat (drop_bit (8 * (k mod 4)) cleared AND 255)))
     }"

definition relative_ones_count_1 :: "RankIndexEntry \<Rightarrow> nat" where
  "relative_ones_count_1 e = unat (relative_ones_counts_0_0 e)"

definition relative_ones_count_2 :: "RankIndexEntry \<Rightarrow> nat" where
  "relative_ones_count_2 e = unat (relative_ones_counts_0_1 e)"

definition relative_ones_count_3 :: "RankIndexEntry \<Rightarrow> nat" where
  "relative_ones_count_3 e = unat (relative_ones_counts_0_2 e)"

definition relative_ones_count_4 :: "RankIndexEntry \<Rightarrow> nat" where
  "relative_ones_count_4 e = unat (relative_ones_count_4_' e)"

definition relative_ones_count_5 :: "RankIndexEntry \<Rightarrow> nat" where
  "relative_ones_count_5 e = u32 (relative_ones_count_4 e + unat (relative_ones_counts_1_0 e))"

definition relative_ones_count_6 :: "RankIndexEntry \<Rightarrow> nat" where
  "relative_ones_count_6 e = u32 (relative_ones_count_4 e + unat (relative_ones_counts_1_1 e))"

definition relative_ones_count_7 :: "RankIndexEntry \<Rightarrow> nat" where
  "relative_ones_count_7 e = u32 (relative_ones_count_4 e + unat (relative_ones_counts_1_2 e))"

text \<open>The setters take a \<open>uint32_t\<close>; the assignment truncates it to the member's width.\<close>

definition set_absolute_ones_count :: "RankIndexEntry \<Rightarrow> nat \<Rightarrow> RankIndexEntry" where
  "set_absolute_ones_count e v = e\<lparr>absolute_ones_count_' := of_nat v\<rparr>"

definition set_relative_ones_count_1 :: "bool \<Rightarrow> RankIndexEntry \<Rightarrow> nat \<Rightarrow> RankIndexEntry option" where
  "set_relative_ones_count_1 dbg e v =
     do {
       _ \<leftarrow> DFST_CHECK dbg (v \<le> kStorageBitSize);
       Some (e\<lparr>relative_ones_counts_0_0 := of_nat v\<rparr>)
     }"

definition set_relative_ones_count_2 :: "bool \<Rightarrow> RankIndexEntry \<Rightarrow> nat \<Rightarrow> RankIndexEntry option" where
  "set_relative_ones_count_2 dbg e v =
     do {
       _ \<leftarrow> DFST_CHECK dbg (v \<le> 2 * kStorageBitSize);
       Some (e\<lparr>relative_ones_counts_0_1 := of_nat v\<rparr>)
     }"

definition set_relative_ones_count_3 :: "bool \<Rightarrow> RankIndexEntry \<Rightarrow> nat \<Rightarrow> RankIndexEntry option" where
  "set_relative_ones_count_3 dbg e v =
     do {
       _ \<leftarrow> DFST_CHECK dbg (v \<le> 3 * kStorageBitSize);
       Some (e\<lparr>relative_ones_counts_0_2 := of_nat v\<rparr>)
     }"

definition set_relative_ones_count_4 :: "bool \<Rightarrow> RankIndexEntry \<Rightarrow> nat \<Rightarrow> RankIndexEntry option" where
  "set_relative_ones_count_4 dbg e v =
     do {
       _ \<leftarrow> DFST_CHECK dbg (v \<le> 4 * kStorageBitSize);
       _ \<leftarrow> DFST_CHECK dbg (relative_ones_counts_1_0 e = 0);
       _ \<leftarrow> DFST_CHECK dbg (relative_ones_counts_1_1 e = 0);
       _ \<leftarrow> DFST_CHECK dbg (relative_ones_counts_1_2 e = 0);
       Some (e\<lparr>relative_ones_count_4_' := of_nat v\<rparr>)
     }"

definition set_relative_ones_count_5 :: "bool \<Rightarrow> RankIndexEntry \<Rightarrow> nat \<Rightarrow> RankIndexEntry option" where
  "set_relative_ones_count_5 dbg e v =
     do {
       _ \<leftarrow> DFST_CHECK dbg (v \<le> 5 * kStorageBitSize);
       Some (e\<lparr>relative_ones_counts_1_0 := of_nat (u32_sub v (relative_ones_count_4 e))\<rparr>)
     }"

definition set_relative_ones_count_6 :: "bool \<Rightarrow> RankIndexEntry \<Rightarrow> nat \<Rightarrow> RankIndexEntry option" where
  "set_relative_ones_count_6 dbg e v =
     do {
       _ \<leftarrow> DFST_CHECK dbg (v \<le> 6 * kStorageBitSize);
       Some (e\<lparr>relative_ones_counts_1_1 := of_nat (u32_sub v (relative_ones_count_4 e))\<rparr>)
     }"

definition set_relative_ones_count_7 :: "bool \<Rightarrow> RankIndexEntry \<Rightarrow> nat \<Rightarrow> RankIndexEntry option" where
  "set_relative_ones_count_7 dbg e v =
     do {
       _ \<leftarrow> DFST_CHECK dbg (v \<le> 7 * kStorageBitSize);
       Some (e\<lparr>relative_ones_counts_1_2 := of_nat (u32_sub v (relative_ones_count_4 e))\<rparr>)
     }"

section \<open>BitmapIndex\<close>

text \<open>
  The object: the borrowed bit buffer (the words the pointer \<open>bits_\<close> addresses), the bit
  length and the three index vectors.
\<close>

record BitmapIndex =
  bits_' :: "64 word list"
  num_bits_' :: nat
  rank_index_' :: "RankIndexEntry list"
  select_0_index_' :: "nat list"
  select_1_index_' :: "nat list"

definition StorageSize :: "nat \<Rightarrow> nat" where
  "StorageSize num_bits = (num_bits + kStorageBlockMask) div 2 ^ kStorageLogBitSize"

definition Bits :: "BitmapIndex \<Rightarrow> nat" where
  "Bits idx = num_bits_' idx"

definition ArraySize :: "BitmapIndex \<Rightarrow> nat" where
  "ArraySize idx = StorageSize (num_bits_' idx)"

definition rank_index_size :: "BitmapIndex \<Rightarrow> nat" where
  "rank_index_size idx =
     (ArraySize idx + kUnitsPerRankIndexEntry - 1) div kUnitsPerRankIndexEntry + 1"

text \<open>\<open>Get\<close>: \<open>(bits[index >> 6] & (kOne << (index & 63))) != 0\<close>.\<close>

definition Get :: "BitmapIndex \<Rightarrow> nat \<Rightarrow> bool option" where
  "Get idx index =
     do {
       w \<leftarrow> vec_at (bits_' idx) (index div 2 ^ kStorageLogBitSize);
       Some (w AND push_bit (index mod 2 ^ kStorageLogBitSize) 1 \<noteq> 0)
     }"

text \<open>\<open>GetOnesCount\<close> reads \<open>rank_index_.back()\<close>, undefined on an empty vector.\<close>

definition GetOnesCount :: "BitmapIndex \<Rightarrow> nat option" where
  "GetOnesCount idx =
     (if rank_index_' idx = [] then None
      else Some (absolute_ones_count (last (rank_index_' idx))))"

definition GetIndexOnesCount :: "bool \<Rightarrow> BitmapIndex \<Rightarrow> nat \<Rightarrow> nat option" where
  "GetIndexOnesCount dbg idx array_index =
     do {
       rank_index_entry \<leftarrow> vec_at (rank_index_' idx) (array_index div kUnitsPerRankIndexEntry);
       let ones_count = absolute_ones_count rank_index_entry;
       rel \<leftarrow> relative_ones_count dbg rank_index_entry (array_index mod kUnitsPerRankIndexEntry);
       Some (u32 (ones_count + rel))
     }"

definition Rank1 :: "bool \<Rightarrow> BitmapIndex \<Rightarrow> nat \<Rightarrow> nat option" where
  "Rank1 dbg idx end' =
     do {
       _ \<leftarrow> DFST_CHECK dbg (end' \<le> Bits idx);
       if end' = 0 then Some 0
       else if end' \<ge> num_bits_' idx then GetOnesCount idx
       else do {
         let end_word = u32 (end' div kStorageBitSize);
         sum \<leftarrow> GetIndexOnesCount dbg idx end_word;
         let bit_index = end' mod kStorageBitSize;
         if bit_index = 0 then Some sum
         else do {
           w \<leftarrow> vec_at (bits_' idx) end_word;
           Some (u32 (sum + builtin_popcountll (w AND kLowBitsMasks bit_index)))
         }
       }
     }"

text \<open>\<open>Rank0\<close>: \<open>end - Rank1(end)\<close>, in \<open>size_t\<close>.\<close>

definition Rank0 :: "bool \<Rightarrow> BitmapIndex \<Rightarrow> nat \<Rightarrow> nat option" where
  "Rank0 dbg idx end' =
     do {
       r \<leftarrow> Rank1 dbg idx end';
       Some (u64_sub end' r)
     }"

subsection \<open>Finding the rank index entry\<close>

text \<open>
  Pointers into \<open>rank_index_\<close> are element indices.  The linear search of
  \<open>FindRankIndexEntry\<close>: \<open>for (entry = begin; entry != end; ++entry)\<close>, leaving the loop at
  the first entry whose absolute count exceeds \<open>bit_index\<close>.
\<close>

function linear_search :: "RankIndexEntry list \<Rightarrow> nat \<Rightarrow> nat \<Rightarrow> nat \<Rightarrow> nat option" where
  "linear_search ri bit_index entry end' =
     (if entry = end' then Some entry
      else if entry \<ge> length ri then None
      else if absolute_ones_count (ri ! entry) > bit_index then Some entry
      else linear_search ri bit_index (entry + 1) end')"
  by pat_completeness auto
termination
  by (relation "measure (\<lambda>(ri, bit_index, entry, end'). length ri - entry)") auto

declare linear_search.simps [simp del]

text \<open>
  \<open>std::upper_bound(begin, end, search_entry, comp)\<close> of the C++ standard library, as its
  usual bisection over \<open>[first, first + len)\<close>; \<open>comp(value, element)\<close> is
  \<open>bit_index < element.absolute_ones_count()\<close>.
\<close>

function upper_bound :: "RankIndexEntry list \<Rightarrow> nat \<Rightarrow> nat \<Rightarrow> nat \<Rightarrow> nat option" where
  "upper_bound ri bit_index first len =
     (if len = 0 then Some first
      else let half = len div 2; middle = first + half in
        if middle \<ge> length ri then None
        else if bit_index < absolute_ones_count (ri ! middle)
          then upper_bound ri bit_index first half
          else upper_bound ri bit_index (middle + 1) (len - half - 1))"
  by pat_completeness auto
termination
  by (relation "measure (\<lambda>(ri, bit_index, first, len). len)") auto

declare upper_bound.simps [simp del]

text \<open>\<open>FindRankIndexEntry\<close> returns a reference to an entry; the model returns its index.\<close>

definition FindRankIndexEntry :: "bool \<Rightarrow> BitmapIndex \<Rightarrow> nat \<Rightarrow> nat option" where
  "FindRankIndexEntry dbg idx bit_index =
     do {
       _ \<leftarrow> DFST_CHECK dbg (rank_index_' idx \<noteq> [] \<and>
              bit_index < absolute_ones_count (last (rank_index_' idx)));
       (begin', end') \<leftarrow>
         (if select_1_index_' idx = [] then Some (0, length (rank_index_' idx))
          else do {
            let select_index = u32 (bit_index div kBitsPerSelect1Block);
            _ \<leftarrow> DFST_CHECK dbg (select_index + 1 < length (select_1_index_' idx));
            lo_bit_index \<leftarrow> vec_at (select_1_index_' idx) select_index;
            hi_bit_index \<leftarrow> vec_at (select_1_index_' idx) (select_index + 1);
            Some (lo_bit_index div kBitsPerSelect1Block,
                  u32 (hi_bit_index + kBitsPerSelect1Block - 1) div kBitsPerSelect1Block)
          });
       entry \<leftarrow>
         (if int end' - int begin' \<le> int kMaxLinearSearchBlocks
          then linear_search (rank_index_' idx) bit_index begin' end'
          else upper_bound (rank_index_' idx) bit_index begin' (end' - begin'));
       e \<leftarrow> (if entry = 0 then None else vec_at (rank_index_' idx) (entry - 1));
       _ \<leftarrow> DFST_CHECK dbg (absolute_ones_count e \<le> bit_index);
       _ \<leftarrow> DFST_CHECK dbg (entry < length (rank_index_' idx) \<and>
              absolute_ones_count (rank_index_' idx ! entry) > bit_index);
       Some (entry - 1)
     }"

text \<open>The bisection of \<open>FindInvertedRankIndexEntry\<close>, in \<open>uint32_t\<close>.\<close>

function FindInverted_loop :: "RankIndexEntry list \<Rightarrow> nat \<Rightarrow> nat \<Rightarrow> nat \<Rightarrow> nat option" where
  "FindInverted_loop ri bit_index lo hi =
     (if lo + 1 < hi then
        let mid = lo + (hi - lo) div 2 in
        if mid \<ge> length ri then None
        else if bit_index <
             u32_sub (u32 (kBitsPerRankIndexEntry * mid)) (absolute_ones_count (ri ! mid))
          then FindInverted_loop ri bit_index lo mid
          else FindInverted_loop ri bit_index mid hi
      else Some lo)"
  by pat_completeness auto
termination
  apply (relation "measure (\<lambda>(ri, bit_index, lo, hi). hi - lo)")
    apply simp
   apply simp
  apply simp
  apply arith
  done

declare FindInverted_loop.simps [simp del]

definition FindInvertedRankIndexEntry :: "bool \<Rightarrow> BitmapIndex \<Rightarrow> nat \<Rightarrow> nat option" where
  "FindInvertedRankIndexEntry dbg idx bit_index =
     do {
       _ \<leftarrow> DFST_CHECK dbg (rank_index_' idx \<noteq> [] \<and>
              bit_index < u64_sub (num_bits_' idx) (absolute_ones_count (last (rank_index_' idx))));
       (lo0, hi0) \<leftarrow>
         (if select_0_index_' idx = []
          then Some (0, u32 ((num_bits_' idx + kBitsPerRankIndexEntry - 1) div kBitsPerRankIndexEntry))
          else do {
            let select_index = u32 (bit_index div kBitsPerSelect0Block);
            _ \<leftarrow> DFST_CHECK dbg (select_index + 1 < length (select_0_index_' idx));
            lo_bit_index \<leftarrow> vec_at (select_0_index_' idx) select_index;
            hi_bit_index \<leftarrow> vec_at (select_0_index_' idx) (select_index + 1);
            Some (lo_bit_index div kBitsPerSelect0Block,
                  u32 (hi_bit_index + kBitsPerSelect0Block - 1) div kBitsPerSelect0Block)
          });
       _ \<leftarrow> DFST_CHECK dbg (hi0 < length (rank_index_' idx));
       lo \<leftarrow> FindInverted_loop (rank_index_' idx) bit_index lo0 hi0;
       _ \<leftarrow> DFST_CHECK dbg (lo < length (rank_index_' idx) \<and>
              u32_sub (u32 (lo * kBitsPerRankIndexEntry))
                (absolute_ones_count (rank_index_' idx ! lo)) \<le> bit_index);
       _ \<leftarrow> (if u32 ((lo + 1) * kBitsPerRankIndexEntry) \<le> num_bits_' idx
            then DFST_CHECK dbg (lo + 1 < length (rank_index_' idx) \<and>
                   u32_sub (u32 ((lo + 1) * kBitsPerRankIndexEntry))
                     (absolute_ones_count (rank_index_' idx ! (lo + 1))) > bit_index)
            else DFST_CHECK dbg (lo + 1 < length (rank_index_' idx) \<and>
                   u64_sub (num_bits_' idx)
                     (absolute_ones_count (rank_index_' idx ! (lo + 1))) > bit_index));
       Some lo
     }"

subsection \<open>Select1, Select0, Select0s\<close>

text \<open>
  The descent inside a block (bitmap-index.cc, lines 68--97): the word of the block and the
  rank of the wanted bit inside that word.  Every subtraction is guarded by the comparison
  of its branch, and \<open>word_index\<close> is a multiple of 8, so nothing wraps here.
\<close>

definition Select1_descend :: "RankIndexEntry \<Rightarrow> nat \<Rightarrow> nat \<Rightarrow> nat \<times> nat" where
  "Select1_descend entry word_index rem =
     (if rem < relative_ones_count_4 entry then
        if rem < relative_ones_count_2 entry then
          if rem < relative_ones_count_1 entry then (word_index, rem)
          else (word_index + 1, rem - relative_ones_count_1 entry)
        else if rem < relative_ones_count_3 entry then (word_index + 2, rem - relative_ones_count_2 entry)
        else (word_index + 3, rem - relative_ones_count_3 entry)
      else if rem < relative_ones_count_6 entry then
        if rem < relative_ones_count_5 entry then (word_index + 4, rem - relative_ones_count_4 entry)
        else (word_index + 5, rem - relative_ones_count_5 entry)
      else if rem < relative_ones_count_7 entry then (word_index + 6, rem - relative_ones_count_6 entry)
      else (word_index + 7, rem - relative_ones_count_7 entry))"

definition Select1 :: "bool \<Rightarrow> BitmapIndex \<Rightarrow> nat \<Rightarrow> nat option" where
  "Select1 dbg idx bit_index =
     do {
       ones_count \<leftarrow> GetOnesCount idx;
       if bit_index \<ge> ones_count then Some (Bits idx)
       else do {
         block_index \<leftarrow> FindRankIndexEntry dbg idx bit_index;
         entry \<leftarrow> vec_at (rank_index_' idx) block_index;
         let word_index = u32 (block_index * kUnitsPerRankIndexEntry);
         let rembits = u32_sub bit_index (absolute_ones_count entry);
         let (word_index, rembits) = Select1_descend entry word_index rembits;
         w \<leftarrow> vec_at (bits_' idx) word_index;
         nth \<leftarrow> nth_bit w rembits;
         Some (u32 (kStorageBitSize * word_index + nth))
       }
     }"

text \<open>
  The same descent on zero counts, \<open>k * kStorageBitSize - relative_ones_count_k()\<close> in
  \<open>uint32_t\<close>; the source has it twice, word for word (lines 115--144 in \<open>Select0\<close> and
  lines 163--192 in \<open>Select0s\<close>).
\<close>

definition Select0_descend :: "RankIndexEntry \<Rightarrow> nat \<Rightarrow> nat \<Rightarrow> nat \<times> nat" where
  "Select0_descend entry word_index rem =
     (if rem < u32_sub (4 * kStorageBitSize) (relative_ones_count_4 entry) then
        if rem < u32_sub (2 * kStorageBitSize) (relative_ones_count_2 entry) then
          if rem < u32_sub (kStorageBitSize) (relative_ones_count_1 entry) then (word_index, rem)
          else (word_index + 1, rem - u32_sub (kStorageBitSize) (relative_ones_count_1 entry))
        else if rem < u32_sub (3 * kStorageBitSize) (relative_ones_count_3 entry) then (word_index + 2, rem - u32_sub (2 * kStorageBitSize) (relative_ones_count_2 entry))
        else (word_index + 3, rem - u32_sub (3 * kStorageBitSize) (relative_ones_count_3 entry))
      else if rem < u32_sub (6 * kStorageBitSize) (relative_ones_count_6 entry) then
        if rem < u32_sub (5 * kStorageBitSize) (relative_ones_count_5 entry) then (word_index + 4, rem - u32_sub (4 * kStorageBitSize) (relative_ones_count_4 entry))
        else (word_index + 5, rem - u32_sub (5 * kStorageBitSize) (relative_ones_count_5 entry))
      else if rem < u32_sub (7 * kStorageBitSize) (relative_ones_count_7 entry) then (word_index + 6, rem - u32_sub (6 * kStorageBitSize) (relative_ones_count_6 entry))
      else (word_index + 7, rem - u32_sub (7 * kStorageBitSize) (relative_ones_count_7 entry)))"

definition Select0 :: "bool \<Rightarrow> BitmapIndex \<Rightarrow> nat \<Rightarrow> nat option" where
  "Select0 dbg idx bit_index =
     do {
       ones_count \<leftarrow> GetOnesCount idx;
       let zeros_count = u32_sub (Bits idx) ones_count;
       if bit_index \<ge> zeros_count then Some (Bits idx)
       else do {
         block_index \<leftarrow> FindInvertedRankIndexEntry dbg idx bit_index;
         entry \<leftarrow> vec_at (rank_index_' idx) block_index;
         let word_index = u32 (block_index * kUnitsPerRankIndexEntry);
         let entry_zeros_count =
               u32_sub (u32 (kStorageBitSize * word_index)) (absolute_ones_count entry);
         let remzeros = u32_sub bit_index entry_zeros_count;
         let (word_index, remzeros) = Select0_descend entry word_index remzeros;
         w \<leftarrow> vec_at (bits_' idx) word_index;
         nth \<leftarrow> nth_bit (NOT w) remzeros;
         Some (u32 (kStorageBitSize * word_index + nth))
       }
     }"

definition Select0s :: "bool \<Rightarrow> BitmapIndex \<Rightarrow> nat \<Rightarrow> (nat \<times> nat) option" where
  "Select0s dbg idx bit_index =
     do {
       ones_count \<leftarrow> GetOnesCount idx;
       let zeros_count = u32_sub (Bits idx) ones_count;
       if bit_index \<ge> zeros_count then Some (Bits idx, Bits idx)
       else if bit_index + 1 \<ge> zeros_count then
         do {
           first \<leftarrow> Select0 dbg idx bit_index;
           Some (first, Bits idx)
         }
       else do {
         block_index \<leftarrow> FindInvertedRankIndexEntry dbg idx bit_index;
         entry \<leftarrow> vec_at (rank_index_' idx) block_index;
         let word_index = u32 (block_index * kUnitsPerRankIndexEntry);
         let entry_zeros_count =
               u32_sub (u32 (kStorageBitSize * word_index)) (absolute_ones_count entry);
         let remzeros = u32_sub bit_index entry_zeros_count;
         let (word_index, remzeros) = Select0_descend entry word_index remzeros;
         w \<leftarrow> vec_at (bits_' idx) word_index;
         let inv_word = NOT w;
         nth \<leftarrow> nth_bit inv_word remzeros;
         let mask = - (push_bit nth 2);
         let masked_inv_word = inv_word AND mask;
         if masked_inv_word \<noteq> 0 then
           do {
             next_nth \<leftarrow> builtin_ctzll masked_inv_word;
             Some (u32 (kStorageBitSize * word_index + nth),
                   u32 (kStorageBitSize * word_index + next_nth))
           }
         else
           do {
             second \<leftarrow> Select0 dbg idx (bit_index + 1);
             Some (u32 (kStorageBitSize * word_index + nth), second)
           }
       }
     }"

subsection \<open>BuildIndex\<close>

text \<open>The eight words of the block that starts at \<open>word_index\<close> (lines 260--269): the first
  is read unconditionally, the others are 0 from \<open>kArraySize\<close> on.\<close>

definition block_words :: "64 word list \<Rightarrow> nat \<Rightarrow> nat \<Rightarrow> 64 word list option" where
  "block_words bits kArraySize word_index =
     do {
       w0 \<leftarrow> vec_at bits word_index;
       w1 \<leftarrow> (if word_index + 1 < kArraySize then vec_at bits (word_index + 1) else Some 0);
       w2 \<leftarrow> (if word_index + 2 < kArraySize then vec_at bits (word_index + 2) else Some 0);
       w3 \<leftarrow> (if word_index + 3 < kArraySize then vec_at bits (word_index + 3) else Some 0);
       w4 \<leftarrow> (if word_index + 4 < kArraySize then vec_at bits (word_index + 4) else Some 0);
       w5 \<leftarrow> (if word_index + 5 < kArraySize then vec_at bits (word_index + 5) else Some 0);
       w6 \<leftarrow> (if word_index + 6 < kArraySize then vec_at bits (word_index + 6) else Some 0);
       w7 \<leftarrow> (if word_index + 7 < kArraySize then vec_at bits (word_index + 7) else Some 0);
       Some [w0, w1, w2, w3, w4, w5, w6, w7]
     }"

text \<open>Lines 278--295: the entry of the block and the running count after the block.\<close>

definition fill_rank_index_entry ::
  "bool \<Rightarrow> RankIndexEntry \<Rightarrow> nat \<Rightarrow> nat list \<Rightarrow> (RankIndexEntry \<times> nat) option" where
  "fill_rank_index_entry dbg rank_index_entry ones_count0 word_ones_count =
     do {
       let abs_ones_count = ones_count0;
       let e = set_absolute_ones_count rank_index_entry abs_ones_count;
       let ones_count = u32 (ones_count0 + word_ones_count ! 0);
       e \<leftarrow> set_relative_ones_count_1 dbg e (u32_sub ones_count abs_ones_count);
       let ones_count = u32 (ones_count + word_ones_count ! 1);
       e \<leftarrow> set_relative_ones_count_2 dbg e (u32_sub ones_count abs_ones_count);
       let ones_count = u32 (ones_count + word_ones_count ! 2);
       e \<leftarrow> set_relative_ones_count_3 dbg e (u32_sub ones_count abs_ones_count);
       let ones_count = u32 (ones_count + word_ones_count ! 3);
       e \<leftarrow> set_relative_ones_count_4 dbg e (u32_sub ones_count abs_ones_count);
       let ones_count = u32 (ones_count + word_ones_count ! 4);
       e \<leftarrow> set_relative_ones_count_5 dbg e (u32_sub ones_count abs_ones_count);
       let ones_count = u32 (ones_count + word_ones_count ! 5);
       e \<leftarrow> set_relative_ones_count_6 dbg e (u32_sub ones_count abs_ones_count);
       let ones_count = u32 (ones_count + word_ones_count ! 6);
       e \<leftarrow> set_relative_ones_count_7 dbg e (u32_sub ones_count abs_ones_count);
       let ones_count = u32 (ones_count + word_ones_count ! 7);
       Some (e, ones_count)
     }"

text \<open>
  Lines 299--325: the loop over the words of the block that records the position of every
  \<open>kBitsPerSelect0Block\<close>-th zero; it returns \<open>select_0_index_\<close>.  A \<open>break\<close> ends the
  recursion.
\<close>

function select_0_scan ::
  "nat \<Rightarrow> nat \<Rightarrow> 64 word list \<Rightarrow> nat list \<Rightarrow> nat list \<Rightarrow> nat \<Rightarrow> nat \<Rightarrow> nat list option" where
  "select_0_scan num_bits word_index word word_ones_count select_0_index s0_zeros_count i =
     (if i < 8 then
        let bit_offset = u32 ((word_index + i) * kStorageBitSize) in
        if bit_offset \<ge> num_bits then Some select_0_index
        else
          let bits_remaining = u32_sub num_bits bit_offset;
              word_zeros_count =
                u32_sub (min bits_remaining kStorageBitSize) (word_ones_count ! i);
              zeros_to_skip = u32_neg s0_zeros_count mod kBitsPerSelect0Block
          in
            if word_zeros_count > zeros_to_skip then
              do {
                nth \<leftarrow> nth_bit (NOT (word ! i)) zeros_to_skip;
                Some (select_0_index @ [u32 (bit_offset + nth)])
              }
            else select_0_scan num_bits word_index word word_ones_count select_0_index
                   (u32 (s0_zeros_count + word_zeros_count)) (i + 1)
      else Some select_0_index)"
  by pat_completeness auto
termination
  by (relation "measure (\<lambda>(num_bits, word_index, word, word_ones_count, select_0_index,
        s0_zeros_count, i). 8 - i)") auto

declare select_0_scan.simps [simp del]

text \<open>Lines 330--342: the same for every \<open>kBitsPerSelect1Block\<close>-th one.\<close>

function select_1_scan ::
  "nat \<Rightarrow> 64 word list \<Rightarrow> nat list \<Rightarrow> nat list \<Rightarrow> nat \<Rightarrow> nat \<Rightarrow> nat list option" where
  "select_1_scan word_index word word_ones_count select_1_index s1_ones_count i =
     (if i < 8 then
        let bit_offset = u32 ((word_index + i) * kStorageBitSize);
            ones_to_skip = u32_neg s1_ones_count mod kBitsPerSelect1Block
        in
          if word_ones_count ! i > ones_to_skip then
            do {
              nth \<leftarrow> nth_bit (word ! i) ones_to_skip;
              Some (select_1_index @ [u32 (bit_offset + nth)])
            }
          else select_1_scan word_index word word_ones_count select_1_index
                 (u32 (s1_ones_count + word_ones_count ! i)) (i + 1)
      else Some select_1_index)"
  by pat_completeness auto
termination
  by (relation "measure (\<lambda>(word_index, word, word_ones_count, select_1_index,
        s1_ones_count, i). 8 - i)") auto

declare select_1_scan.simps [simp del]

text \<open>One iteration of the loop over the blocks (lines 260--343): the updated object and
  the counters \<open>ones_count\<close> and \<open>zeros_count\<close>.\<close>

definition BuildIndex_block ::
  "bool \<Rightarrow> bool \<Rightarrow> bool \<Rightarrow> nat \<Rightarrow> BitmapIndex \<Rightarrow> nat \<Rightarrow> nat \<Rightarrow> nat \<Rightarrow>
     (BitmapIndex \<times> nat \<times> nat) option" where
  "BuildIndex_block dbg enable_select_0_index enable_select_1_index kArraySize idx
       word_index ones_count0 zeros_count0 =
     do {
       word \<leftarrow> block_words (bits_' idx) kArraySize word_index;
       let word_ones_count = map builtin_popcountll word;
       rank_index_entry \<leftarrow>
         vec_at (rank_index_' idx) (word_index div kUnitsPerRankIndexEntry);
       let abs_ones_count = ones_count0;
       (rank_index_entry, ones_count) \<leftarrow>
         fill_rank_index_entry dbg rank_index_entry ones_count0 word_ones_count;
       let idx = idx\<lparr>rank_index_' :=
                   (rank_index_' idx)[word_index div kUnitsPerRankIndexEntry := rank_index_entry]\<rparr>;
       (idx, zeros_count) \<leftarrow>
         (if enable_select_0_index then
            do {
              s0 \<leftarrow> select_0_scan (num_bits_' idx) word_index word word_ones_count
                      (select_0_index_' idx) zeros_count0 0;
              Some (idx\<lparr>select_0_index_' := s0\<rparr>,
                    u32 (zeros_count0 +
                         u32_sub (8 * kStorageBitSize) (u32_sub ones_count abs_ones_count)))
            }
          else Some (idx, zeros_count0));
       idx \<leftarrow>
         (if enable_select_1_index then
            do {
              s1 \<leftarrow> select_1_scan word_index word word_ones_count
                      (select_1_index_' idx) abs_ones_count 0;
              Some (idx\<lparr>select_1_index_' := s1\<rparr>)
            }
          else Some idx);
       Some (idx, ones_count, zeros_count)
     }"

text \<open>The loop \<open>for (word_index = 0; word_index < kArraySize; word_index += 8)\<close>.\<close>

function BuildIndex_loop ::
  "bool \<Rightarrow> bool \<Rightarrow> bool \<Rightarrow> nat \<Rightarrow> BitmapIndex \<Rightarrow> nat \<Rightarrow> nat \<Rightarrow> nat \<Rightarrow>
     (BitmapIndex \<times> nat) option" where
  "BuildIndex_loop dbg enable_select_0_index enable_select_1_index kArraySize idx
       word_index ones_count zeros_count =
     (if word_index < kArraySize then
        case BuildIndex_block dbg enable_select_0_index enable_select_1_index kArraySize idx
               word_index ones_count zeros_count of
          None \<Rightarrow> None
        | Some (idx', ones_count', zeros_count') \<Rightarrow>
            BuildIndex_loop dbg enable_select_0_index enable_select_1_index kArraySize idx'
              (word_index + 8) ones_count' zeros_count'
      else Some (idx, ones_count))"
  by pat_completeness auto
termination
  by (relation "measure (\<lambda>(dbg, e0, e1, kArraySize, idx, word_index, ones_count, zeros_count).
        kArraySize - word_index)") auto

declare BuildIndex_loop.simps [simp del]

text \<open>
  \<open>BuildIndex\<close>.  \<open>DFST_CHECK_LT(num_bits, uint64_t{1} << 32)\<close> is its precondition: beyond
  it the 32-bit counters and positions of the source no longer hold the values, and the model
  gives no result there in either build.  The vectors are cleared first, so the result
  depends on the arguments only.
\<close>

definition BuildIndex ::
  "bool \<Rightarrow> 64 word list \<Rightarrow> nat \<Rightarrow> bool \<Rightarrow> bool \<Rightarrow> BitmapIndex option" where
  "BuildIndex dbg bits num_bits enable_select_0_index enable_select_1_index =
     (if \<not> num_bits < 2 ^ 32 then None
      else
        let idx = \<lparr>bits_' = bits, num_bits_' = num_bits, rank_index_' = [],
                   select_0_index_' = [], select_1_index_' = []\<rparr>;
            idx = idx\<lparr>rank_index_' := replicate (rank_index_size idx) default_entry\<rparr>;
            kArraySize = ArraySize idx
        in
          do {
            (idx, ones_count) \<leftarrow>
              BuildIndex_loop dbg enable_select_0_index enable_select_1_index kArraySize idx 0 0 0;
            let idx = idx\<lparr>rank_index_' :=
                        (rank_index_' idx)[length (rank_index_' idx) - 1 :=
                           set_absolute_ones_count (last (rank_index_' idx)) ones_count]\<rparr>;
            let idx = (if enable_select_0_index
                       then idx\<lparr>select_0_index_' := select_0_index_' idx @ [u32 num_bits]\<rparr>
                       else idx);
            let idx = (if enable_select_1_index
                       then idx\<lparr>select_1_index_' := select_1_index_' idx @ [u32 num_bits]\<rparr>
                       else idx);
            Some idx
          })"
section \<open>Vocabulary of the claims\<close>

subsection \<open>Call sequences of the RankIndexEntry setters\<close>

text \<open>
  A call \<open>set_relative_ones_count_k(v)\<close> is the pair \<open>(k, v)\<close>; \<open>call_setters\<close> makes the
  calls of a list in order and stops at the first failed check.  \<open>cumulative_counts v\<close>
  says that \<open>v 1, ..., v 7\<close> are the cumulative popcounts of seven 64-bit words:
  each step adds between 0 and 64, so \<open>v k \<le> 64 * k\<close>.  \<open>entry_after a v S\<close> is the
  entry whose absolute count is \<open>a\<close> and in which exactly the counts with index in \<open>S\<close>
  have been stored.
\<close>

definition call_setter :: "bool \<Rightarrow> RankIndexEntry \<Rightarrow> nat \<times> nat \<Rightarrow> RankIndexEntry option" where
  "call_setter dbg e kv =
     (case kv of (k, v) \<Rightarrow>
        if k = 1 then set_relative_ones_count_1 dbg e v
        else if k = 2 then set_relative_ones_count_2 dbg e v
        else if k = 3 then set_relative_ones_count_3 dbg e v
        else if k = 4 then set_relative_ones_count_4 dbg e v
        else if k = 5 then set_relative_ones_count_5 dbg e v
        else if k = 6 then set_relative_ones_count_6 dbg e v
        else if k = 7 then set_relative_ones_count_7 dbg e v
        else None)"

fun call_setters :: "bool \<Rightarrow> RankIndexEntry \<Rightarrow> (nat \<times> nat) list \<Rightarrow> RankIndexEntry option" where
  "call_setters dbg e [] = Some e"
| "call_setters dbg e (kv # kvs) =
     (case call_setter dbg e kv of None \<Rightarrow> None | Some e' \<Rightarrow> call_setters dbg e' kvs)"

definition cumulative_counts :: "(nat \<Rightarrow> nat) \<Rightarrow> bool" where
  "cumulative_counts v \<longleftrightarrow>
     v 0 = 0 \<and> v 1 \<le> 64 \<and>
     v 1 \<le> v 2 \<and> v 2 \<le> v 1 + 64 \<and>
     v 2 \<le> v 3 \<and> v 3 \<le> v 2 + 64 \<and>
     v 3 \<le> v 4 \<and> v 4 \<le> v 3 + 64 \<and>
     v 4 \<le> v 5 \<and> v 5 \<le> v 4 + 64 \<and>
     v 5 \<le> v 6 \<and> v 6 \<le> v 5 + 64 \<and>
     v 6 \<le> v 7 \<and> v 7 \<le> v 6 + 64"

definition entry_after :: "nat \<Rightarrow> (nat \<Rightarrow> nat) \<Rightarrow> nat set \<Rightarrow> RankIndexEntry" where
  "entry_after a v S =
     \<lparr>absolute_ones_count_' = of_nat a,
      relative_ones_count_4_' = (if 4 \<in> S then of_nat (v 4) else 0),
      relative_ones_counts_0_0 = (if 1 \<in> S then of_nat (v 1) else 0),
      relative_ones_counts_0_1 = (if 2 \<in> S then of_nat (v 2) else 0),
      relative_ones_counts_0_2 = (if 3 \<in> S then of_nat (v 3) else 0),
      relative_ones_counts_1_0 = (if 5 \<in> S then of_nat (v 5 - v 4) else 0),
      relative_ones_counts_1_1 = (if 6 \<in> S then of_nat (v 6 - v 4) else 0),
      relative_ones_counts_1_2 = (if 7 \<in> S then of_nat (v 7 - v 4) else 0)\<rparr>"

subsection \<open>The bit vector and what the index holds\<close>

text \<open>
  Bit \<open>i\<close> of the vector is bit \<open>i mod 64\<close> of word \<open>i div 64\<close>.  \<open>rank1_spec\<close>,
  \<open>select1_spec\<close> and \<open>select0_spec\<close> are the queries read off the bits themselves.
  A well-formed input (\<open>bit_vector\<close>) has fewer than \<open>2 ^ 32\<close> bits, a buffer that holds
  its \<open>StorageSize\<close> words, and zero bits from \<open>num_bits\<close> to the end of the last word.
  The remaining definitions name the intermediate values of \<open>BuildIndex\<close> and its result.
\<close>

definition bit_at :: "64 word list \<Rightarrow> nat \<Rightarrow> bool" where
  "bit_at bits i = bit (bits ! (i div 64)) (i mod 64)"

definition rank1_spec :: "64 word list \<Rightarrow> nat \<Rightarrow> nat" where
  "rank1_spec bits n = length (filter (bit_at bits) [0..<n])"

definition padding_zero :: "64 word list \<Rightarrow> nat \<Rightarrow> bool" where
  "padding_zero bits num_bits \<longleftrightarrow> (\<forall>i\<in>{num_bits..<64 * StorageSize num_bits}. \<not> bit_at bits i)"

definition bit_vector :: "64 word list \<Rightarrow> nat \<Rightarrow> bool" where
  "bit_vector bits num_bits \<longleftrightarrow>
     num_bits < 2 ^ 32 \<and> StorageSize num_bits \<le> length bits \<and> padding_zero bits num_bits"

text \<open>Counting and selecting the positions below \<open>n\<close> that satisfy \<open>P\<close>.\<close>

definition count_upto :: "(nat \<Rightarrow> bool) \<Rightarrow> nat \<Rightarrow> nat" where
  "count_upto P n = length (filter P [0..<n])"

definition select1_spec :: "64 word list \<Rightarrow> nat \<Rightarrow> nat \<Rightarrow> nat" where
  "select1_spec bits n k = filter (bit_at bits) [0..<n] ! k"

definition select0_spec :: "64 word list \<Rightarrow> nat \<Rightarrow> nat \<Rightarrow> nat" where
  "select0_spec bits n k = filter (\<lambda>i. \<not> bit_at bits i) [0..<n] ! k"

text \<open>The words that \<open>BuildIndex\<close> sees (0 from \<open>kArraySize\<close> on) and their running popcount.\<close>

definition eff_word :: "64 word list \<Rightarrow> nat \<Rightarrow> nat \<Rightarrow> 64 word" where
  "eff_word bits A j = (if j < A then bits ! j else 0)"

definition cum :: "64 word list \<Rightarrow> nat \<Rightarrow> nat \<Rightarrow> nat" where
  "cum bits A j = (\<Sum>i<j. builtin_popcountll (eff_word bits A i))"

definition rank_entry :: "64 word list \<Rightarrow> nat \<Rightarrow> nat \<Rightarrow> RankIndexEntry" where
  "rank_entry bits A b =
     entry_after (cum bits A (8 * b)) (\<lambda>k. cum bits A (8 * b + k) - cum bits A (8 * b))
       {1, 2, 3, 4, 5, 6, 7}"

definition ones_before :: "64 word list \<Rightarrow> nat \<Rightarrow> nat \<Rightarrow> nat" where
  "ones_before bits n j = count_upto (bit_at bits) (min n (64 * j))"

definition zeros_before_word :: "64 word list \<Rightarrow> nat \<Rightarrow> nat \<Rightarrow> nat" where
  "zeros_before_word bits n j = count_upto (\<lambda>i. \<not> bit_at bits i) (min n (64 * j))"

definition built_rank_index :: "64 word list \<Rightarrow> nat \<Rightarrow> RankIndexEntry list" where
  "built_rank_index bits n =
     map (rank_entry bits (StorageSize n)) [0..<(StorageSize n + 7) div 8]
     @ [set_absolute_ones_count default_entry (rank1_spec bits n)]"

definition built_select_1 :: "64 word list \<Rightarrow> nat \<Rightarrow> nat list" where
  "built_select_1 bits n =
     map (\<lambda>m. select1_spec bits n (512 * m)) [0..<(rank1_spec bits n + 511) div 512] @ [n]"

definition built_select_0 :: "64 word list \<Rightarrow> nat \<Rightarrow> nat list" where
  "built_select_0 bits n =
     map (\<lambda>m. select0_spec bits n (512 * m)) [0..<(n - rank1_spec bits n + 511) div 512] @ [n]"

definition built_index :: "64 word list \<Rightarrow> nat \<Rightarrow> bool \<Rightarrow> bool \<Rightarrow> BitmapIndex" where
  "built_index bits n e0 e1 =
     \<lparr>bits_' = bits, num_bits_' = n, rank_index_' = built_rank_index bits n,
      select_0_index_' = (if e0 then built_select_0 bits n else []),
      select_1_index_' = (if e1 then built_select_1 bits n else [])\<rparr>"

text \<open>The object at the head of the iteration for block \<open>b\<close>.\<close>

definition loop_state :: "64 word list \<Rightarrow> nat \<Rightarrow> bool \<Rightarrow> bool \<Rightarrow> nat \<Rightarrow> BitmapIndex" where
  "loop_state bits n e0 e1 b =
     \<lparr>bits_' = bits, num_bits_' = n,
      rank_index_' = map (rank_entry bits (StorageSize n)) [0..<b]
                     @ replicate ((StorageSize n + 7) div 8 + 1 - b) default_entry,
      select_0_index_' =
        (if e0 then map (\<lambda>m. select0_spec bits n (512 * m))
                      [0..<(zeros_before_word bits n (8 * b) + 511) div 512] else []),
      select_1_index_' =
        (if e1 then map (\<lambda>m. select1_spec bits n (512 * m))
                      [0..<(cum bits (StorageSize n) (8 * b) + 511) div 512] else [])\<rparr>"

section \<open>Basic facts about the machine arithmetic\<close>

lemma u32_id [simp]: "x < 2 ^ 32 \<Longrightarrow> u32 x = x"
  by (simp add: u32_def)

lemma u32_sub_id [simp]: "b \<le> a \<Longrightarrow> a < 2 ^ 32 \<Longrightarrow> u32_sub a b = a - b"
  by (simp add: u32_sub_def nat_diff_distrib' flip: of_nat_diff)

lemma u32_less [simp]: "u32 x < 4294967296"
  by (simp add: u32_def)

lemma DFST_CHECK_True [simp]: "c \<Longrightarrow> DFST_CHECK dbg c = Some ()"
  by (simp add: DFST_CHECK_def)

lemma DFST_CHECK_release [simp]: "DFST_CHECK False c = Some ()"
  by (simp add: DFST_CHECK_def)

lemma DFST_CHECK_eq_Some: "DFST_CHECK dbg c = Some u \<longleftrightarrow> (dbg \<longrightarrow> c)"
  by (auto simp add: DFST_CHECK_def)

lemma unat_of_nat8 [simp]: "n < 256 \<Longrightarrow> unat (of_nat n :: 8 word) = n"
  by (simp add: unat_of_nat)

lemma unat_of_nat16 [simp]: "n < 65536 \<Longrightarrow> unat (of_nat n :: 16 word) = n"
  by (simp add: unat_of_nat)

lemma unat_of_nat32 [simp]: "n < 4294967296 \<Longrightarrow> unat (of_nat n :: 32 word) = n"
  by (simp add: unat_of_nat)

lemma unat8_less: "unat (a :: 8 word) < 256"
proof -
  have "unat a < 2 ^ LENGTH(8)" by (rule unsigned_less)
  then show ?thesis by simp
qed

lemma unat16_less: "unat (a :: 16 word) < 65536"
proof -
  have "unat a < 2 ^ LENGTH(16)" by (rule unsigned_less)
  then show ?thesis by simp
qed

lemma unat32_less: "unat (a :: 32 word) < 4294967296"
proof -
  have "unat a < 2 ^ LENGTH(32)" by (rule unsigned_less)
  then show ?thesis by simp
qed

lemma unat_ucast_8_32: "unat (ucast (a :: 8 word) :: 32 word) = unat a"
  using unat8_less [of a]
  by (simp add: unsigned_ucast_eq take_bit_nat_eq_self_iff)

section \<open>RankIndexEntry: the packed counts\<close>

lemma entry_after_empty:
  "set_absolute_ones_count default_entry a = entry_after a v {}"
  by (simp add: set_absolute_ones_count_def default_entry_def entry_after_def)

lemma call_setter_entry_after:
  assumes "cumulative_counts v" and "k \<in> {1..7}" and "k \<notin> S"
    and "4 \<in> S \<or> (insert k S) \<inter> {5, 6, 7} = {}"
  shows "call_setter dbg (entry_after a v S) (k, v k) = Some (entry_after a v (insert k S))"
proof -
  from assms(2) consider "k = 1" | "k = 2" | "k = 3" | "k = 4" | "k = 5" | "k = 6" | "k = 7"
    by force
  then show ?thesis
  proof cases
    case 1
    with assms show ?thesis
      by (auto simp add: call_setter_def set_relative_ones_count_1_def entry_after_def
          cumulative_counts_def)
  next
    case 2
    with assms show ?thesis
      by (auto simp add: call_setter_def set_relative_ones_count_2_def entry_after_def
          cumulative_counts_def)
  next
    case 3
    with assms show ?thesis
      by (auto simp add: call_setter_def set_relative_ones_count_3_def entry_after_def
          cumulative_counts_def)
  next
    case 4
    with assms show ?thesis
      by (auto simp add: call_setter_def set_relative_ones_count_4_def entry_after_def
          cumulative_counts_def)
  next
    case 5
    with assms show ?thesis
      by (auto simp add: call_setter_def set_relative_ones_count_5_def entry_after_def
          cumulative_counts_def relative_ones_count_4_def)
  next
    case 6
    with assms show ?thesis
      by (auto simp add: call_setter_def set_relative_ones_count_6_def entry_after_def
          cumulative_counts_def relative_ones_count_4_def)
  next
    case 7
    with assms show ?thesis
      by (auto simp add: call_setter_def set_relative_ones_count_7_def entry_after_def
          cumulative_counts_def relative_ones_count_4_def)
  qed
qed

lemma call_setters_entry_after:
  assumes "cumulative_counts v"
  shows "distinct ks \<Longrightarrow> set ks \<subseteq> {1..7} \<Longrightarrow> set ks \<inter> S = {} \<Longrightarrow>
         4 \<in> S \<or> (set ks \<union> S) \<inter> {5, 6, 7} = {} \<Longrightarrow>
         call_setters dbg (entry_after a v S) (map (\<lambda>k. (k, v k)) ks)
           = Some (entry_after a v (set ks \<union> S))"
proof (induction ks arbitrary: S)
  case Nil
  then show ?case by simp
next
  case (Cons k ks)
  have step: "call_setter dbg (entry_after a v S) (k, v k) = Some (entry_after a v (insert k S))"
    using Cons.prems by (intro call_setter_entry_after [OF assms]) auto
  have "call_setters dbg (entry_after a v (insert k S)) (map (\<lambda>k. (k, v k)) ks)
          = Some (entry_after a v (set ks \<union> insert k S))"
    using Cons.prems by (intro Cons.IH) auto
  with step show ?case by simp
qed

lemma load_bytes:
  fixes g a b c :: "8 word"
  defines "x \<equiv> (ucast g OR push_bit 8 (ucast a) OR push_bit 16 (ucast b)
                   OR push_bit 24 (ucast c) :: 32 word)"
  shows "unat (drop_bit 0 (x AND NOT 255) AND 255) = 0"
    and "unat (drop_bit 8 (x AND NOT 255) AND 255) = unat a"
    and "unat (drop_bit 16 (x AND NOT 255) AND 255) = unat b"
    and "unat (drop_bit 24 (x AND NOT 255) AND 255) = unat c"
proof -
  have m: "(255 :: 32 word) = mask 8"
    by (simp add: mask_eq_exp_minus_1)
  have "drop_bit 0 (x AND NOT 255) AND 255 = 0"
    unfolding x_def m by (rule bit_word_eqI) (auto simp add: bit_simps)
  then show "unat (drop_bit 0 (x AND NOT 255) AND 255) = 0"
    by (simp only: unsigned_0)
  have "drop_bit 8 (x AND NOT 255) AND 255 = ucast a"
    unfolding x_def m by (rule bit_word_eqI) (auto simp add: bit_simps dest: bit_imp_le_length)
  then show "unat (drop_bit 8 (x AND NOT 255) AND 255) = unat a"
    by (simp only: unat_ucast_8_32)
  have "drop_bit 16 (x AND NOT 255) AND 255 = ucast b"
    unfolding x_def m by (rule bit_word_eqI) (auto simp add: bit_simps dest: bit_imp_le_length)
  then show "unat (drop_bit 16 (x AND NOT 255) AND 255) = unat b"
    by (simp only: unat_ucast_8_32)
  have "drop_bit 24 (x AND NOT 255) AND 255 = ucast c"
    unfolding x_def m by (rule bit_word_eqI) (auto simp add: bit_simps dest: bit_imp_le_length)
  then show "unat (drop_bit 24 (x AND NOT 255) AND 255) = unat c"
    by (simp only: unat_ucast_8_32)
qed

text \<open>The general getter agrees with the typed getters on every entry.\<close>

lemma relative_ones_count_low:
  fixes e :: RankIndexEntry
  defines "x \<equiv> (ucast (ucast (drop_bit 8 (relative_ones_count_4_' e)) :: 8 word)
                  OR push_bit 8 (ucast (relative_ones_counts_0_0 e))
                  OR push_bit 16 (ucast (relative_ones_counts_0_1 e))
                  OR push_bit 24 (ucast (relative_ones_counts_0_2 e)) :: 32 word)"
  shows "relative_ones_count dbg e 0 = Some 0"
    and "relative_ones_count dbg e 1 = Some (relative_ones_count_1 e)"
    and "relative_ones_count dbg e 2 = Some (relative_ones_count_2 e)"
    and "relative_ones_count dbg e 3 = Some (relative_ones_count_3 e)"
proof -
  have "relative_ones_count dbg e 0 = Some (u32 (0 + unat (drop_bit 0 (x AND NOT 255) AND 255)))"
    by (simp add: relative_ones_count_def UnalignedLoad32_def entry_bytes_def x_def)
  then show "relative_ones_count dbg e 0 = Some 0"
    by (simp only: x_def load_bytes) simp
  have "relative_ones_count dbg e 1 = Some (u32 (0 + unat (drop_bit 8 (x AND NOT 255) AND 255)))"
    by (simp add: relative_ones_count_def UnalignedLoad32_def entry_bytes_def x_def)
  then show "relative_ones_count dbg e 1 = Some (relative_ones_count_1 e)"
    using unat8_less [of "relative_ones_counts_0_0 e"]
    by (simp only: x_def load_bytes relative_ones_count_1_def) simp
  have "relative_ones_count dbg e 2 = Some (u32 (0 + unat (drop_bit 16 (x AND NOT 255) AND 255)))"
    by (simp add: relative_ones_count_def UnalignedLoad32_def entry_bytes_def x_def)
  then show "relative_ones_count dbg e 2 = Some (relative_ones_count_2 e)"
    using unat8_less [of "relative_ones_counts_0_1 e"]
    by (simp only: x_def load_bytes relative_ones_count_2_def) simp
  have "relative_ones_count dbg e 3 = Some (u32 (0 + unat (drop_bit 24 (x AND NOT 255) AND 255)))"
    by (simp add: relative_ones_count_def UnalignedLoad32_def entry_bytes_def x_def)
  then show "relative_ones_count dbg e 3 = Some (relative_ones_count_3 e)"
    using unat8_less [of "relative_ones_counts_0_2 e"]
    by (simp only: x_def load_bytes relative_ones_count_3_def) simp
qed

lemma relative_ones_count_high:
  fixes e :: RankIndexEntry
  defines "x \<equiv> (ucast (relative_ones_counts_0_2 e)
                  OR push_bit 8 (ucast (relative_ones_counts_1_0 e))
                  OR push_bit 16 (ucast (relative_ones_counts_1_1 e))
                  OR push_bit 24 (ucast (relative_ones_counts_1_2 e)) :: 32 word)"
    and "c \<equiv> unat (relative_ones_count_4_' e)"
  shows "relative_ones_count dbg e 4 = Some (relative_ones_count_4 e)"
    and "relative_ones_count dbg e 5 = Some (relative_ones_count_5 e)"
    and "relative_ones_count dbg e 6 = Some (relative_ones_count_6 e)"
    and "relative_ones_count dbg e 7 = Some (relative_ones_count_7 e)"
proof -
  have "relative_ones_count dbg e 4 = Some (u32 (c + unat (drop_bit 0 (x AND NOT 255) AND 255)))"
    by (simp add: relative_ones_count_def UnalignedLoad32_def entry_bytes_def x_def c_def)
  then show "relative_ones_count dbg e 4 = Some (relative_ones_count_4 e)"
    using unat16_less [of "relative_ones_count_4_' e"]
    by (simp only: x_def c_def load_bytes relative_ones_count_4_def) simp
  have "relative_ones_count dbg e 5 = Some (u32 (c + unat (drop_bit 8 (x AND NOT 255) AND 255)))"
    by (simp add: relative_ones_count_def UnalignedLoad32_def entry_bytes_def x_def c_def)
  then show "relative_ones_count dbg e 5 = Some (relative_ones_count_5 e)"
    by (simp only: x_def c_def load_bytes relative_ones_count_5_def relative_ones_count_4_def)
  have "relative_ones_count dbg e 6 = Some (u32 (c + unat (drop_bit 16 (x AND NOT 255) AND 255)))"
    by (simp add: relative_ones_count_def UnalignedLoad32_def entry_bytes_def x_def c_def)
  then show "relative_ones_count dbg e 6 = Some (relative_ones_count_6 e)"
    by (simp only: x_def c_def load_bytes relative_ones_count_6_def relative_ones_count_4_def)
  have "relative_ones_count dbg e 7 = Some (u32 (c + unat (drop_bit 24 (x AND NOT 255) AND 255)))"
    by (simp add: relative_ones_count_def UnalignedLoad32_def entry_bytes_def x_def c_def)
  then show "relative_ones_count dbg e 7 = Some (relative_ones_count_7 e)"
    by (simp only: x_def c_def load_bytes relative_ones_count_7_def relative_ones_count_4_def)
qed

lemmas relative_ones_count_eq = relative_ones_count_low relative_ones_count_high

lemma relative_ones_count_undefined: "8 \<le> k \<Longrightarrow> relative_ones_count dbg e k = None"
  by (cases dbg) (simp_all add: relative_ones_count_def DFST_CHECK_def UnalignedLoad32_def entry_bytes_def)


lemma call_setters_append:
  "call_setters dbg e (xs @ ys) =
     (case call_setters dbg e xs of None \<Rightarrow> None | Some e' \<Rightarrow> call_setters dbg e' ys)"
  by (induction xs arbitrary: e) (auto split: option.splits)

lemma cumulative_counts_bounds:
  assumes "cumulative_counts v"
  shows "v 1 \<le> 64" "v 2 \<le> 128" "v 3 \<le> 192" "v 4 \<le> 256" "v 5 \<le> 320" "v 6 \<le> 384"
    "v 7 \<le> 448" "v 4 \<le> v 5" "v 4 \<le> v 6" "v 4 \<le> v 7" "v 5 - v 4 \<le> 64" "v 6 - v 4 \<le> 128"
    "v 7 - v 4 \<le> 192"
  using assms by (auto simp add: cumulative_counts_def)

lemma getters_entry_after:
  assumes "cumulative_counts v"
  shows "relative_ones_count_1 (entry_after a v {1, 2, 3, 4, 5, 6, 7}) = v 1"
    and "relative_ones_count_2 (entry_after a v {1, 2, 3, 4, 5, 6, 7}) = v 2"
    and "relative_ones_count_3 (entry_after a v {1, 2, 3, 4, 5, 6, 7}) = v 3"
    and "relative_ones_count_4 (entry_after a v {1, 2, 3, 4, 5, 6, 7}) = v 4"
    and "relative_ones_count_5 (entry_after a v {1, 2, 3, 4, 5, 6, 7}) = v 5"
    and "relative_ones_count_6 (entry_after a v {1, 2, 3, 4, 5, 6, 7}) = v 6"
    and "relative_ones_count_7 (entry_after a v {1, 2, 3, 4, 5, 6, 7}) = v 7"
  using cumulative_counts_bounds [OF assms]
  by (simp_all add: entry_after_def relative_ones_count_1_def relative_ones_count_2_def
      relative_ones_count_3_def relative_ones_count_4_def relative_ones_count_5_def
      relative_ones_count_6_def relative_ones_count_7_def del: of_nat_diff)

lemma relative_ones_count_Suc_0:
  "relative_ones_count dbg e (Suc 0) = Some (relative_ones_count_1 e)"
  using relative_ones_count_low(2) [of dbg e] by simp

lemma relative_ones_count_less_8:
  assumes "k < 8"
  shows "relative_ones_count dbg e k =
     Some (if k = 0 then 0 else if k = 1 then relative_ones_count_1 e
           else if k = 2 then relative_ones_count_2 e else if k = 3 then relative_ones_count_3 e
           else if k = 4 then relative_ones_count_4 e else if k = 5 then relative_ones_count_5 e
           else if k = 6 then relative_ones_count_6 e else relative_ones_count_7 e)"
proof -
  from assms consider "k = 0" | "k = 1" | "k = 2" | "k = 3" | "k = 4" | "k = 5" | "k = 6" | "k = 7"
    by linarith
  then show ?thesis
    by cases (simp_all add: relative_ones_count_eq relative_ones_count_Suc_0)
qed

text \<open>
  C8, as amended.  Start from a fresh entry with any absolute count, and call each of
  \<open>set_relative_ones_count_1 .. 7\<close> once, in any order \<open>ks\<close> in which only setters 1, 2, 3
  come before setter 4, with cumulative counts \<open>v k\<close>.  Then no check fails, every typed
  getter returns the value that was set, the general getter \<open>relative_ones_count(k)\<close>
  returns the same values for \<open>k = 1..7\<close> and 0 for \<open>k = 0\<close>, and the record takes 12 bytes.
  The general getter is defined for \<open>k < 8\<close> only.
\<close>

theorem RankIndexEntry_setters_then_getters:
  assumes "cumulative_counts v"
    and "ks = before4 @ 4 # after4" and "set before4 \<subseteq> {1, 2, 3}"
    and "distinct ks" and "set ks = {1, 2, 3, 4, 5, 6, 7}"
  shows "\<exists>e. call_setters dbg (set_absolute_ones_count default_entry a)
                (map (\<lambda>k. (k, v k)) ks) = Some e
           \<and> relative_ones_count_1 e = v 1 \<and> relative_ones_count_2 e = v 2
           \<and> relative_ones_count_3 e = v 3 \<and> relative_ones_count_4 e = v 4
           \<and> relative_ones_count_5 e = v 5 \<and> relative_ones_count_6 e = v 6
           \<and> relative_ones_count_7 e = v 7
           \<and> (\<forall>k<8. relative_ones_count dbg e k = Some (v k))
           \<and> length (entry_bytes e) = 12"
proof -
  let ?f = "\<lambda>k. (k, v k)"
  have d: "distinct before4" "distinct after4" "4 \<notin> set before4" "4 \<notin> set after4"
    "set before4 \<inter> set after4 = {}"
    using assms(2,4) by auto
  have "set ks \<subseteq> {1..7}"
    unfolding assms(5) by auto
  then have sub: "set before4 \<subseteq> {1..7}" "set after4 \<subseteq> {1..7}"
    unfolding assms(2) by auto
  have S: "set after4 \<union> insert 4 (set before4) = {1, 2, 3, 4, 5, 6, 7}"
    using assms(2,5) by auto
  have nb: "5 \<notin> set before4" "6 \<notin> set before4" "7 \<notin> set before4"
    using assms(3) by auto
  have 1: "call_setters dbg (entry_after a v {}) (map ?f before4)
             = Some (entry_after a v (set before4))"
    using call_setters_entry_after [OF assms(1), of before4 "{}" dbg a] d sub nb
    by auto
  have 2: "call_setters dbg (entry_after a v (set before4)) (map ?f [4])
             = Some (entry_after a v (insert 4 (set before4)))"
    using call_setters_entry_after [OF assms(1), of "[4]" "set before4" dbg a] d nb
    by auto
  have "call_setters dbg (entry_after a v (insert 4 (set before4))) (map ?f after4)
          = Some (entry_after a v (set after4 \<union> insert 4 (set before4)))"
    by (rule call_setters_entry_after [OF assms(1)]) (use d sub in auto)
  then have 3: "call_setters dbg (entry_after a v (insert 4 (set before4))) (map ?f after4)
             = Some (entry_after a v {1, 2, 3, 4, 5, 6, 7})"
    unfolding S .
  have split: "map ?f ks = map ?f before4 @ (map ?f [4] @ map ?f after4)"
    by (simp add: assms(2))
  have run: "call_setters dbg (set_absolute_ones_count default_entry a) (map ?f ks)
               = Some (entry_after a v {1, 2, 3, 4, 5, 6, 7})"
    unfolding split entry_after_empty [of a v]
    by (simp only: call_setters_append 1 2 3 option.case)
  have g0: "v 0 = 0"
    using assms(1) by (simp add: cumulative_counts_def)
  have general: "relative_ones_count dbg (entry_after a v {1, 2, 3, 4, 5, 6, 7}) k = Some (v k)"
    if "k < 8" for k
  proof -
    note g = getters_entry_after [OF assms(1), of a]
    from that consider "k = 0" | "k = 1" | "k = 2" | "k = 3" | "k = 4" | "k = 5" | "k = 6"
      | "k = 7"
      by linarith
    then show ?thesis
      by cases (simp_all only: relative_ones_count_eq g g0)
  qed
  have "length (entry_bytes (entry_after a v {1, 2, 3, 4, 5, 6, 7})) = 12"
    by (simp add: entry_bytes_def)
  with run general getters_entry_after [OF assms(1), of a] show ?thesis
    by blast
qed

theorem RankIndexEntry_setters_then_getters_witness:
  "cumulative_counts (\<lambda>k. 64 * k) \<and>
   (\<exists>e. call_setters True (set_absolute_ones_count default_entry 5)
           (map (\<lambda>k. (k, 64 * k)) [2, 1, 3, 4, 7, 5, 6]) = Some e
      \<and> relative_ones_count_4 e = 256 \<and> relative_ones_count_7 e = 448
      \<and> relative_ones_count True e 0 = Some 0 \<and> relative_ones_count True e 5 = Some 320
      \<and> length (entry_bytes e) = 12)"
proof -
  have c: "cumulative_counts (\<lambda>k. 64 * k)"
    by (simp add: cumulative_counts_def)
  have s: "set [2, 1, 3, 4, 7, 5, 6] = {1, 2, 3, 4, 5, 6, 7 :: nat}"
    by auto
  from RankIndexEntry_setters_then_getters [OF c, of "[2, 1, 3, 4, 7, 5, 6]" "[2, 1, 3]"
      "[7, 5, 6]" True 5, OF _ _ _ s]
  obtain e where e: "call_setters True (set_absolute_ones_count default_entry 5)
           (map (\<lambda>k. (k, 64 * k)) [2, 1, 3, 4, 7, 5, 6]) = Some e"
      "relative_ones_count_4 e = 64 * 4" "relative_ones_count_7 e = 64 * 7"
      "\<forall>k<8. relative_ones_count True e k = Some (64 * k)" "length (entry_bytes e) = 12"
    by auto
  from e(4) have "relative_ones_count True e 0 = Some 0" "relative_ones_count True e 5 = Some 320"
    by simp_all
  with c e show ?thesis
    by auto
qed

text \<open>
  C8 as stated also promises \<open>relative_ones_count(8)\<close>, the total of the block.  The getter
  asserts \<open>k < 8\<close>, and without the assertion its load would start at byte 11 of the 12-byte
  record and leave it: for the entry of a block of eight all-ones words it gives no value in
  either build.
\<close>

theorem relative_ones_count_8_counterexample:
  "call_setters True default_entry
     [(1, 64), (2, 128), (3, 192), (4, 256), (5, 320), (6, 384), (7, 448)]
   = Some \<lparr>absolute_ones_count_' = 0, relative_ones_count_4_' = 256,
           relative_ones_counts_0_0 = 64, relative_ones_counts_0_1 = 128,
           relative_ones_counts_0_2 = 192, relative_ones_counts_1_0 = 64,
           relative_ones_counts_1_1 = 128, relative_ones_counts_1_2 = 192\<rparr>
   \<and> relative_ones_count True
       \<lparr>absolute_ones_count_' = 0, relative_ones_count_4_' = 256,
        relative_ones_counts_0_0 = 64, relative_ones_counts_0_1 = 128,
        relative_ones_counts_0_2 = 192, relative_ones_counts_1_0 = 64,
        relative_ones_counts_1_1 = 128, relative_ones_counts_1_2 = 192\<rparr> 8 = None
   \<and> relative_ones_count False
       \<lparr>absolute_ones_count_' = 0, relative_ones_count_4_' = 256,
        relative_ones_counts_0_0 = 64, relative_ones_counts_0_1 = 128,
        relative_ones_counts_0_2 = 192, relative_ones_counts_1_0 = 64,
        relative_ones_counts_1_1 = 128, relative_ones_counts_1_2 = 192\<rparr> 8 = None"
  by (simp add: call_setter_def default_entry_def relative_ones_count_undefined
      set_relative_ones_count_1_def set_relative_ones_count_2_def set_relative_ones_count_3_def
      set_relative_ones_count_4_def set_relative_ones_count_5_def set_relative_ones_count_6_def
      set_relative_ones_count_7_def relative_ones_count_4_def)

lemma count_upto_0 [simp]: "count_upto P 0 = 0"
  by (simp add: count_upto_def)

lemma count_upto_Suc: "count_upto P (Suc n) = count_upto P n + (if P n then 1 else 0)"
  by (simp add: count_upto_def)

lemma count_upto_le: "count_upto P n \<le> n"
  unfolding count_upto_def by (rule order_trans [OF length_filter_le]) simp

lemma count_upto_add:
  "count_upto P (n + m) = count_upto P n + count_upto (\<lambda>i. P (n + i)) m"
  by (induction m) (simp_all add: count_upto_Suc)

lemma count_upto_mono: "n \<le> m \<Longrightarrow> count_upto P n \<le> count_upto P m"
  using count_upto_add [of P n "m - n"] by simp

lemma count_upto_diff_le: "n \<le> m \<Longrightarrow> count_upto P m \<le> count_upto P n + (m - n)"
  using count_upto_add [of P n "m - n"] count_upto_le [of "\<lambda>i. P (n + i)" "m - n"] by simp

lemma count_upto_strict: "P n \<Longrightarrow> n < m \<Longrightarrow> count_upto P n < count_upto P m"
  using count_upto_mono [of "Suc n" m P] by (simp add: count_upto_Suc)

lemma count_upto_compl: "count_upto (\<lambda>i. \<not> P i) n = n - count_upto P n"
  using sum_length_filter_compl [of P "[0..<n]"] by (simp add: count_upto_def)

lemma count_upto_cong: "(\<And>i. i < n \<Longrightarrow> P i = Q i) \<Longrightarrow> count_upto P n = count_upto Q n"
  unfolding count_upto_def by (rule arg_cong [where f = length], rule filter_cong) auto

text \<open>The \<open>k\<close>-th position satisfying \<open>P\<close> is the one with \<open>k\<close> such positions before it.\<close>

lemma nth_filter_upt:
  assumes "k < count_upto P n"
  shows "filter P [0..<n] ! k < n \<and> P (filter P [0..<n] ! k)
           \<and> count_upto P (filter P [0..<n] ! k) = k"
  using assms
proof (induction n)
  case 0
  then show ?case by simp
next
  case (Suc n)
  show ?case
  proof (cases "k < count_upto P n")
    case True
    then have "filter P [0..<Suc n] ! k = filter P [0..<n] ! k"
      by (simp add: nth_append count_upto_def)
    with Suc.IH [OF True] show ?thesis by simp
  next
    case False
    with Suc.prems have "P n" and k: "k = count_upto P n"
      by (auto simp add: count_upto_Suc split: if_splits)
    then have "filter P [0..<Suc n] ! k = n"
      by (simp add: nth_append count_upto_def)
    with \<open>P n\<close> k show ?thesis by simp
  qed
qed

lemma count_upto_inj:
  assumes "P p" "P q" "count_upto P p = count_upto P q"
  shows "p = q"
proof (rule ccontr)
  assume "p \<noteq> q"
  then consider "p < q" | "q < p" by linarith
  then show False
    using count_upto_strict [of P p q] count_upto_strict [of P q p] assms by cases auto
qed

lemma nth_filter_upt_eq:
  assumes "p < n" "P p" "count_upto P p = k"
  shows "k < count_upto P n \<and> filter P [0..<n] ! k = p"
proof -
  have k: "k < count_upto P n"
    using count_upto_strict [of P p n] assms by simp
  from nth_filter_upt [OF k] assms count_upto_inj [of P "filter P [0..<n] ! k" p]
  show ?thesis using k by simp
qed

section \<open>The set bits of a word\<close>

lemma set_bits64_count: "builtin_popcountll w = count_upto (bit w) 64"
  by (simp add: builtin_popcountll_def set_bits64_def count_upto_def)

lemma popcountll_le: "builtin_popcountll w \<le> 64"
  unfolding set_bits64_count by (rule count_upto_le)

lemma popcountll_0 [simp]: "builtin_popcountll 0 = 0"
  by (simp add: builtin_popcountll_def set_bits64_def)

lemma bit64_less: "bit (w :: 64 word) i \<Longrightarrow> i < 64"
  using bit_imp_le_length [of w i] by simp

lemma popcountll_NOT: "builtin_popcountll (NOT w) = 64 - builtin_popcountll w"
proof -
  have "count_upto (bit (NOT w)) 64 = count_upto (\<lambda>i. \<not> bit w i) 64"
    by (rule count_upto_cong) (simp add: bit_not_iff)
  then show ?thesis
    by (simp add: set_bits64_count count_upto_compl)
qed

lemma kLowBitsMasks_mask: "kLowBitsMasks b = mask b"
  by (simp add: kLowBitsMasks_def mask_eq_exp_minus_1)

lemma popcountll_low_bits:
  assumes "b \<le> 64"
  shows "builtin_popcountll (w AND kLowBitsMasks b) = count_upto (bit w) b"
proof -
  have "count_upto (bit (w AND mask b)) 64 = count_upto (\<lambda>i. bit w i \<and> i < b) 64"
    by (rule count_upto_cong) (auto simp add: bit_and_iff bit_mask_iff)
  also have "\<dots> = count_upto (\<lambda>i. bit w i \<and> i < b) b + count_upto (\<lambda>i. bit w (b + i) \<and> b + i < b) (64 - b)"
    using count_upto_add [of "\<lambda>i. bit w i \<and> i < b" b "64 - b"] assms by simp
  also have "count_upto (\<lambda>i. bit w (b + i) \<and> b + i < b) (64 - b) = 0"
    by (simp add: count_upto_def)
  also have "count_upto (\<lambda>i. bit w i \<and> i < b) b = count_upto (bit w) b"
    by (rule count_upto_cong) simp
  finally show ?thesis
    by (simp add: set_bits64_count kLowBitsMasks_mask)
qed

lemma nth_bit_Some:
  assumes "k < builtin_popcountll w"
  shows "\<exists>q. nth_bit w k = Some q \<and> q < 64 \<and> bit w q \<and> count_upto (bit w) q = k"
  using nth_filter_upt [of k "bit w" 64] assms
  by (simp add: nth_bit_def set_bits64_def set_bits64_count)

lemma nth_bit_None: "builtin_popcountll w \<le> k \<Longrightarrow> nth_bit w k = None"
  by (simp add: nth_bit_def)

section \<open>Counting in the bit vector\<close>

lemma rank1_spec_count: "rank1_spec bits n = count_upto (bit_at bits) n"
  by (simp add: rank1_spec_def count_upto_def)

lemma bit_at_word: "i < 64 \<Longrightarrow> bit_at bits (64 * j + i) = bit (bits ! j) i"
  by (simp add: bit_at_def)

lemma count_word:
  assumes "b \<le> 64"
  shows "count_upto (bit_at bits) (64 * j + b) = count_upto (bit_at bits) (64 * j) + count_upto (bit (bits ! j)) b"
proof -
  have "count_upto (\<lambda>i. bit_at bits (64 * j + i)) b = count_upto (bit (bits ! j)) b"
    using assms by (intro count_upto_cong) (simp add: bit_at_word)
  then show ?thesis
    by (simp add: count_upto_add)
qed

lemma cum_0 [simp]: "cum bits A 0 = 0"
  by (simp add: cum_def)

lemma cum_Suc: "cum bits A (Suc j) = cum bits A j + builtin_popcountll (eff_word bits A j)"
  by (simp add: cum_def)

lemma cum_plus1: "cum bits A (j + 1) = cum bits A j + builtin_popcountll (eff_word bits A j)"
  by (simp add: cum_Suc)

lemma cum_add_le: "cum bits A (j + m) \<le> cum bits A j + 64 * m"
proof (induction m)
  case 0
  then show ?case by simp
next
  case (Suc m)
  then show ?case
    using popcountll_le [of "eff_word bits A (j + m)"] by (simp add: cum_Suc)
qed

lemma cum_mono: "i \<le> j \<Longrightarrow> cum bits A i \<le> cum bits A j"
  unfolding cum_def by (intro sum_mono2) auto

lemma cum_count: "j \<le> A \<Longrightarrow> cum bits A j = count_upto (bit_at bits) (64 * j)"
proof (induction j)
  case 0
  then show ?case by simp
next
  case (Suc j)
  then have "cum bits A (Suc j) = count_upto (bit_at bits) (64 * j) + builtin_popcountll (bits ! j)"
    by (simp add: cum_Suc eff_word_def)
  also have "\<dots> = count_upto (bit_at bits) (64 * j + 64)"
    by (simp add: count_word set_bits64_count)
  finally show ?case by (simp add: algebra_simps)
qed

lemma cum_beyond: "A \<le> j \<Longrightarrow> cum bits A j = cum bits A A"
proof (induction j)
  case 0
  then show ?case by simp
next
  case (Suc j)
  show ?case
  proof (cases "A \<le> j")
    case True
    with Suc.IH show ?thesis by (simp add: cum_Suc eff_word_def)
  next
    case False
    with Suc.prems have "Suc j = A" by simp
    then show ?thesis by simp
  qed
qed

lemma StorageSize_bounds: "num_bits \<le> 64 * StorageSize num_bits" "64 * StorageSize num_bits < num_bits + 64"
  by (simp_all add: StorageSize_def)

lemma count_padding:
  assumes "padding_zero bits n"
  shows "count_upto (bit_at bits) (64 * StorageSize n) = count_upto (bit_at bits) n"
proof -
  let ?A = "StorageSize n"
  have "count_upto (\<lambda>i. bit_at bits (n + i)) (64 * ?A - n) = count_upto (\<lambda>i. False) (64 * ?A - n)"
    using assms by (intro count_upto_cong) (simp add: padding_zero_def)
  also have "\<dots> = 0"
    by (simp add: count_upto_def)
  finally show ?thesis
    using count_upto_add [of "bit_at bits" n "64 * ?A - n"] StorageSize_bounds(1) [of n] by simp
qed

lemma cum_total:
  assumes "padding_zero bits n"
  shows "cum bits (StorageSize n) (StorageSize n) = count_upto (bit_at bits) n"
  using count_padding [OF assms] by (simp add: cum_count)

lemma cum_le_total:
  assumes "padding_zero bits n"
  shows "cum bits (StorageSize n) j \<le> count_upto (bit_at bits) n"
proof (cases "j \<le> StorageSize n")
  case True
  then show ?thesis
    using cum_mono [of j "StorageSize n" bits "StorageSize n"] cum_total [OF assms] by simp
next
  case False
  then show ?thesis
    using cum_beyond [of "StorageSize n" j bits] cum_total [OF assms] by simp
qed

lemma cum_less_2p32:
  assumes "bit_vector bits n"
  shows "cum bits (StorageSize n) j < 4294967296"
  using cum_le_total [of bits n j] count_upto_le [of "bit_at bits" n] assms
  by (simp add: bit_vector_def)

lemma sum_lessThan_small:
  fixes g :: "nat \<Rightarrow> nat"
  shows "(\<Sum>i<1. g i) = g 0"
    and "(\<Sum>i<2. g i) = g 0 + g 1"
    and "(\<Sum>i<3. g i) = g 0 + g 1 + g 2"
    and "(\<Sum>i<4. g i) = g 0 + g 1 + g 2 + g 3"
    and "(\<Sum>i<5. g i) = g 0 + g 1 + g 2 + g 3 + g 4"
    and "(\<Sum>i<6. g i) = g 0 + g 1 + g 2 + g 3 + g 4 + g 5"
    and "(\<Sum>i<7. g i) = g 0 + g 1 + g 2 + g 3 + g 4 + g 5 + g 6"
    and "(\<Sum>i<8. g i) = g 0 + g 1 + g 2 + g 3 + g 4 + g 5 + g 6 + g 7"
  by (simp_all add: numeral_eq_Suc)

lemma cum_add: "cum bits A (j + k) = cum bits A j + (\<Sum>i<k. builtin_popcountll (eff_word bits A (j + i)))"
  by (induction k) (simp_all add: cum_Suc)

lemma cum_small:
  fixes bits A j
  defines "c \<equiv> \<lambda>i. builtin_popcountll (eff_word bits A (j + i))"
  shows "cum bits A (j + 1) = cum bits A j + c 0"
    and "cum bits A (j + 2) = cum bits A j + c 0 + c 1"
    and "cum bits A (j + 3) = cum bits A j + c 0 + c 1 + c 2"
    and "cum bits A (j + 4) = cum bits A j + c 0 + c 1 + c 2 + c 3"
    and "cum bits A (j + 5) = cum bits A j + c 0 + c 1 + c 2 + c 3 + c 4"
    and "cum bits A (j + 6) = cum bits A j + c 0 + c 1 + c 2 + c 3 + c 4 + c 5"
    and "cum bits A (j + 7) = cum bits A j + c 0 + c 1 + c 2 + c 3 + c 4 + c 5 + c 6"
    and "cum bits A (j + 8) = cum bits A j + c 0 + c 1 + c 2 + c 3 + c 4 + c 5 + c 6 + c 7"
  unfolding cum_add c_def by (simp_all only: sum_lessThan_small add.assoc)

lemma cumulative_cum: "cumulative_counts (\<lambda>k. cum bits A (j + k) - cum bits A j)"
proof -
  have le: "builtin_popcountll (eff_word bits A (j + i)) \<le> 64" for i
    by (rule popcountll_le)
  show ?thesis
    unfolding cumulative_counts_def cum_small
    using le [of 0] le [of 1] le [of 2] le [of 3] le [of 4] le [of 5] le [of 6]
    by simp
qed

lemma rank_entry_getters:
  shows "relative_ones_count_1 (rank_entry bits A b) = cum bits A (8 * b + 1) - cum bits A (8 * b)"
    and "relative_ones_count_2 (rank_entry bits A b) = cum bits A (8 * b + 2) - cum bits A (8 * b)"
    and "relative_ones_count_3 (rank_entry bits A b) = cum bits A (8 * b + 3) - cum bits A (8 * b)"
    and "relative_ones_count_4 (rank_entry bits A b) = cum bits A (8 * b + 4) - cum bits A (8 * b)"
    and "relative_ones_count_5 (rank_entry bits A b) = cum bits A (8 * b + 5) - cum bits A (8 * b)"
    and "relative_ones_count_6 (rank_entry bits A b) = cum bits A (8 * b + 6) - cum bits A (8 * b)"
    and "relative_ones_count_7 (rank_entry bits A b) = cum bits A (8 * b + 7) - cum bits A (8 * b)"
  unfolding rank_entry_def by (rule getters_entry_after [OF cumulative_cum])+

lemma rank_entry_absolute:
  "cum bits A (8 * b) < 4294967296 \<Longrightarrow> absolute_ones_count (rank_entry bits A b) = cum bits A (8 * b)"
  by (simp add: rank_entry_def entry_after_def absolute_ones_count_def)

lemma rank_entry_relative:
  assumes "k < 8"
  shows "relative_ones_count dbg (rank_entry bits A b) k
           = Some (cum bits A (8 * b + k) - cum bits A (8 * b))"
proof -
  from assms consider "k = 0" | "k = 1" | "k = 2" | "k = 3" | "k = 4" | "k = 5" | "k = 6"
    | "k = 7"
    by linarith
  then show ?thesis
    by cases (simp_all only: relative_ones_count_eq rank_entry_getters add_0_right diff_self_eq_0)
qed

lemma block_words_eq:
  assumes "8 * b < A" "A \<le> length bits"
  shows "block_words bits A (8 * b) =
     Some [eff_word bits A (8 * b), eff_word bits A (8 * b + 1), eff_word bits A (8 * b + 2),
           eff_word bits A (8 * b + 3), eff_word bits A (8 * b + 4), eff_word bits A (8 * b + 5),
           eff_word bits A (8 * b + 6), eff_word bits A (8 * b + 7)]"
  using assms by (simp add: block_words_def vec_at_def eff_word_def)

lemma fill_rank_index_entry_sums:
  assumes "c0 \<le> 64" "c1 \<le> 64" "c2 \<le> 64" "c3 \<le> 64" "c4 \<le> 64" "c5 \<le> 64" "c6 \<le> 64" "c7 \<le> 64"
    and "a + c0 + c1 + c2 + c3 + c4 + c5 + c6 + c7 < 4294967296"
  shows "fill_rank_index_entry dbg default_entry a [c0, c1, c2, c3, c4, c5, c6, c7] =
     Some (entry_after a (\<lambda>k. sum_list (take k [c0, c1, c2, c3, c4, c5, c6, c7])) {1, 2, 3, 4, 5, 6, 7},
           a + c0 + c1 + c2 + c3 + c4 + c5 + c6 + c7)"
  using assms
  by (simp add: fill_rank_index_entry_def set_absolute_ones_count_def default_entry_def
      entry_after_def set_relative_ones_count_1_def set_relative_ones_count_2_def
      set_relative_ones_count_3_def set_relative_ones_count_4_def set_relative_ones_count_5_def
      set_relative_ones_count_6_def set_relative_ones_count_7_def relative_ones_count_4_def
      del: of_nat_diff of_nat_add)

lemma entry_after_cong:
  assumes "v 1 = v' 1" "v 2 = v' 2" "v 3 = v' 3" "v 4 = v' 4" "v 5 = v' 5" "v 6 = v' 6"
    "v 7 = v' 7"
  shows "entry_after a v S = entry_after a v' S"
  using assms by (simp add: entry_after_def)

lemma fill_rank_index_entry_block:
  assumes "cum bits A (8 * b + 8) < 4294967296"
  shows "fill_rank_index_entry dbg default_entry (cum bits A (8 * b))
           (map builtin_popcountll
              [eff_word bits A (8 * b), eff_word bits A (8 * b + 1), eff_word bits A (8 * b + 2),
               eff_word bits A (8 * b + 3), eff_word bits A (8 * b + 4), eff_word bits A (8 * b + 5),
               eff_word bits A (8 * b + 6), eff_word bits A (8 * b + 7)])
         = Some (rank_entry bits A b, cum bits A (8 * b + 8))"
proof -
  let ?c = "\<lambda>i. builtin_popcountll (eff_word bits A (8 * b + i))"
  note sums = cum_small [of bits A "8 * b"]
  have e: "entry_after (cum bits A (8 * b))
             (\<lambda>k. sum_list (take k [?c 0, ?c 1, ?c 2, ?c 3, ?c 4, ?c 5, ?c 6, ?c 7])) {1, 2, 3, 4, 5, 6, 7}
           = rank_entry bits A b"
    unfolding rank_entry_def
    by (rule entry_after_cong) (simp_all only: sums, simp_all)
  have "fill_rank_index_entry dbg default_entry (cum bits A (8 * b))
          [?c 0, ?c 1, ?c 2, ?c 3, ?c 4, ?c 5, ?c 6, ?c 7]
        = Some (entry_after (cum bits A (8 * b))
             (\<lambda>k. sum_list (take k [?c 0, ?c 1, ?c 2, ?c 3, ?c 4, ?c 5, ?c 6, ?c 7])) {1, 2, 3, 4, 5, 6, 7},
           cum bits A (8 * b) + ?c 0 + ?c 1 + ?c 2 + ?c 3 + ?c 4 + ?c 5 + ?c 6 + ?c 7)"
    using assms unfolding sums(8)
    by (intro fill_rank_index_entry_sums popcountll_le)
  from this [unfolded e sums(8) [symmetric]] show ?thesis
    by (simp only: list.map add_0_right)
qed

section \<open>Arithmetic of the select tables\<close>

lemma u32_neg_skip:
  assumes "s \<le> 512 * M" "512 * M < s + 512" "s < 4294967296"
  shows "u32_neg s mod 512 = 512 * M - s"
proof -
  have "(- int s) mod 4294967296 mod 512 = (- int s) mod 512"
    by (rule mod_mod_cancel) simp
  also have "\<dots> = (int (512 * M - s) + (- int M) * 512) mod 512"
    using assms(1) by (simp add: of_nat_diff algebra_simps)
  also have "\<dots> = int (512 * M - s) mod 512"
    by (rule mod_mult_self1)
  also have "\<dots> = int (512 * M - s)"
    using assms(2) by simp
  finally have "nat ((- int s) mod 4294967296 mod 512) = 512 * M - s"
    by simp
  moreover have "nat ((- int s) mod 4294967296) mod 512 = nat ((- int s) mod 4294967296 mod 512)"
    by (simp add: nat_mod_distrib)
  ultimately show ?thesis
    by (simp add: u32_neg_def)
qed

lemma ceil512_bounds:
  fixes a :: nat
  shows "a \<le> 512 * ((a + 511) div 512)" "512 * ((a + 511) div 512) < a + 512"
  by arith+

lemma ceil512_step:
  fixes a c :: nat
  assumes "a \<le> c" "c \<le> a + 512"
  shows "(c + 511) div 512 =
           (if 512 * ((a + 511) div 512) < c then (a + 511) div 512 + 1 else (a + 511) div 512)"
  using assms by (auto split: if_splits)

lemma blocks_bound:
  assumes "n < 4294967296"
  shows "StorageSize n \<le> 67108864" "8 * ((StorageSize n + 7) div 8) \<le> 67108864"
  using assms by (simp_all add: StorageSize_def)

lemma blocks_cover:
  fixes A :: nat
  shows "A \<le> 8 * ((A + 7) div 8)" "8 * ((A + 7) div 8) < A + 8"
  by arith+

section \<open>What \<open>BuildIndex\<close> computes\<close>

lemma word_index_cases:
  shows "64 * j \<le> n \<Longrightarrow> j \<le> StorageSize n"
    and "n < 64 * j \<Longrightarrow> StorageSize n \<le> j"
  by (simp_all add: StorageSize_def)

lemma cum_ones_before:
  assumes "padding_zero bits n"
  shows "cum bits (StorageSize n) j = ones_before bits n j"
proof (cases "64 * j \<le> n")
  case True
  then show ?thesis
    using word_index_cases(1) [OF True] by (simp add: ones_before_def cum_count min_def)
next
  case False
  then have "StorageSize n \<le> j"
    using word_index_cases(2) [of n j] by simp
  then show ?thesis
    using False cum_beyond [of "StorageSize n" j bits] cum_total [OF assms]
    by (simp add: ones_before_def min_def)
qed

lemma zeros_before_word_eq:
  assumes "padding_zero bits n"
  shows "zeros_before_word bits n j = min n (64 * j) - cum bits (StorageSize n) j"
  by (simp add: zeros_before_word_def count_upto_compl cum_ones_before [OF assms] ones_before_def)

lemma zeros_before_word_mono: "i \<le> j \<Longrightarrow> zeros_before_word bits n i \<le> zeros_before_word bits n j"
  unfolding zeros_before_word_def by (rule count_upto_mono) simp

lemma zeros_before_word_step: "zeros_before_word bits n (j + m) \<le> zeros_before_word bits n j + 64 * m"
proof -
  have "min n (64 * j) \<le> min n (64 * (j + m))"
    by simp
  from count_upto_diff_le [OF this, of "\<lambda>i. \<not> bit_at bits i"]
  have "zeros_before_word bits n (j + m)
          \<le> zeros_before_word bits n j + (min n (64 * (j + m)) - min n (64 * j))"
    by (simp add: zeros_before_word_def)
  moreover have "min n (64 * (j + m)) - min n (64 * j) \<le> 64 * m"
    by arith
  ultimately show ?thesis
    by linarith
qed

lemma block_nth:
  fixes g :: "nat \<Rightarrow> 'a"
  assumes "i < 8"
  shows "[g j, g (j + 1), g (j + 2), g (j + 3), g (j + 4), g (j + 5), g (j + 6), g (j + 7)] ! i
           = g (j + i)"
proof -
  have "i \<in> {0, 1, 2, 3, 4, 5, 6, 7}"
    using assms by auto
  then show ?thesis
    by auto
qed

lemma eff_word_nonzero: "0 < builtin_popcountll (eff_word bits A j) \<Longrightarrow> j < A \<and> eff_word bits A j = bits ! j"
  by (cases "j < A") (simp_all add: eff_word_def)

lemma position_in_vector:
  assumes "padding_zero bits n" "j < StorageSize n" "q < 64" "bit (bits ! j) q"
  shows "64 * j + q < n"
proof (rule ccontr)
  assume "\<not> 64 * j + q < n"
  moreover have "64 * j + q < 64 * StorageSize n"
    using assms(2,3) by simp
  ultimately have "\<not> bit_at bits (64 * j + q)"
    using assms(1) by (simp add: padding_zero_def)
  then show False
    using assms(3,4) by (simp add: bit_at_word)
qed

lemma select_1_scan_spec:
  assumes bv: "bit_vector bits n"
    and W: "\<And>i. i < 8 \<Longrightarrow> W ! i = eff_word bits (StorageSize n) (8 * b + i)"
    and C: "\<And>i. i < 8 \<Longrightarrow> C ! i = builtin_popcountll (eff_word bits (StorageSize n) (8 * b + i))"
    and b: "8 * b + 8 \<le> 67108864"
  defines "M \<equiv> (cum bits (StorageSize n) (8 * b) + 511) div 512"
  shows "i \<le> 8 \<Longrightarrow> cum bits (StorageSize n) (8 * b + i) \<le> 512 * M \<Longrightarrow>
     select_1_scan (8 * b) W C S (cum bits (StorageSize n) (8 * b + i)) i
       = Some (if 512 * M < cum bits (StorageSize n) (8 * b + 8)
               then S @ [select1_spec bits n (512 * M)] else S)"
proof (induction "8 - i" arbitrary: i)
  case 0
  then have "i = 8" by simp
  with "0.prems" show ?case
    by (subst select_1_scan.simps) simp
next
  case (Suc k)
  let ?A = "StorageSize n"
  let ?j = "8 * b + i"
  let ?s = "cum bits ?A ?j"
  from Suc.hyps Suc.prems have i: "i < 8" by simp
  have pz: "padding_zero bits n" and n: "n < 4294967296"
    using bv by (simp_all add: bit_vector_def)
  have s32: "?s < 4294967296"
    by (rule cum_less_2p32 [OF bv])
  have lower: "512 * M < ?s + 512"
    using ceil512_bounds(2) [of "cum bits ?A (8 * b)"] cum_mono [of "8 * b" ?j bits ?A]
    by (simp add: M_def)
  have skip: "u32_neg ?s mod 512 = 512 * M - ?s"
    using Suc.prems(2) lower s32 by (rule u32_neg_skip)
  have next_cum: "cum bits ?A (8 * b + (i + 1)) = ?s + C ! i"
    using cum_plus1 [of bits ?A ?j] C [OF i] by (simp add: add.assoc)
  have off: "u32 ((8 * b + i) * 64) = 64 * ?j"
    using b i by (simp add: u32_def)
  show ?case
  proof (cases "512 * M - ?s < C ! i")
    case True
    then have cross: "512 * M < cum bits ?A (8 * b + (i + 1))"
      using next_cum by simp
    have "cum bits ?A (8 * b + (i + 1)) \<le> cum bits ?A (8 * b + 8)"
      using i by (intro cum_mono) simp
    with cross have cross8: "512 * M < cum bits ?A (8 * b + 8)"
      by simp
    from True C [OF i] have pos: "0 < builtin_popcountll (eff_word bits ?A ?j)"
      by simp
    from eff_word_nonzero [OF pos] have j: "?j < ?A" and w: "eff_word bits ?A ?j = bits ! ?j"
      by simp_all
    from True C [OF i] w have "512 * M - ?s < builtin_popcountll (bits ! ?j)"
      by simp
    from nth_bit_Some [OF this] obtain q where
      q: "nth_bit (bits ! ?j) (512 * M - ?s) = Some q" "q < 64" "bit (bits ! ?j) q"
        "count_upto (bit (bits ! ?j)) q = 512 * M - ?s"
      by blast
    have p: "64 * ?j + q < n"
      using pz j q(2,3) by (rule position_in_vector)
    have cj: "count_upto (bit_at bits) (64 * ?j) = ?s"
      using cum_count [of ?j ?A bits] j by simp
    have "count_upto (bit_at bits) (64 * ?j + q) = 512 * M"
      using count_word [of q bits ?j] q(2,4) cj Suc.prems(2) by simp
    moreover have "bit_at bits (64 * ?j + q)"
      using q(2,3) bit_at_word [of q bits ?j] by simp
    ultimately have "select1_spec bits n (512 * M) = 64 * ?j + q"
      using p nth_filter_upt_eq [of "64 * ?j + q" n "bit_at bits" "512 * M"]
      by (simp add: select1_spec_def)
    moreover have "u32 (64 * ?j + q) = 64 * ?j + q"
      using p n by (simp add: u32_def)
    ultimately show ?thesis
      using True i cross8 q(1) skip off W [OF i] w
      by (subst select_1_scan.simps) (simp add: Let_def)
  next
    case False
    then have le: "cum bits ?A (8 * b + (i + 1)) \<le> 512 * M"
      using next_cum Suc.prems(2) by simp
    have s': "u32 (?s + C ! i) = cum bits ?A (8 * b + (i + 1))"
      using next_cum cum_less_2p32 [OF bv, of "8 * b + (i + 1)"] by (simp add: u32_def)
    have "select_1_scan (8 * b) W C S (cum bits ?A (8 * b + (i + 1))) (i + 1)
            = Some (if 512 * M < cum bits ?A (8 * b + 8)
                    then S @ [select1_spec bits n (512 * M)] else S)"
      using Suc.hyps i le by (intro Suc.hyps(1)) simp_all
    then show ?thesis
      using False i skip s'
      by (subst select_1_scan.simps) (simp add: Let_def)
  qed
qed

lemma count_not_word:
  assumes "q \<le> 64"
  shows "count_upto (\<lambda>i. \<not> bit_at bits i) (64 * j + q)
           = count_upto (\<lambda>i. \<not> bit_at bits i) (64 * j) + (q - count_upto (bit (bits ! j)) q)"
proof -
  let ?P = "\<lambda>i. \<not> bit_at bits i"
  have "count_upto ?P (64 * j + q) = count_upto ?P (64 * j) + count_upto (\<lambda>i. ?P (64 * j + i)) q"
    by (rule count_upto_add)
  also have "count_upto (\<lambda>i. ?P (64 * j + i)) q = count_upto (\<lambda>i. \<not> bit (bits ! j) i) q"
    using assms by (intro count_upto_cong) (simp add: bit_at_word)
  also have "\<dots> = q - count_upto (bit (bits ! j)) q"
    by (rule count_upto_compl)
  finally show ?thesis .
qed

lemma count_NOT_word:
  assumes "q \<le> 64"
  shows "count_upto (bit (NOT w :: 64 word)) q = q - count_upto (bit w) q"
proof -
  have "count_upto (bit (NOT w)) q = count_upto (\<lambda>i. \<not> bit w i) q"
    using assms by (intro count_upto_cong) (simp add: bit_not_iff)
  then show ?thesis
    by (simp add: count_upto_compl)
qed

lemma word_below_size: "64 * j < n \<Longrightarrow> j < StorageSize n"
  by (simp add: StorageSize_def)

text \<open>In the last word only the bits of the vector are set.\<close>

lemma popcount_real_bits:
  assumes "padding_zero bits n" "64 * j < n"
  shows "builtin_popcountll (bits ! j) = count_upto (bit (bits ! j)) (min (n - 64 * j) 64)"
proof -
  let ?rb = "min (n - 64 * j) 64"
  have j: "j < StorageSize n"
    using assms(2) by (rule word_below_size)
  have "count_upto (\<lambda>i. bit (bits ! j) (?rb + i)) (64 - ?rb) = count_upto (\<lambda>i. False) (64 - ?rb)"
  proof (rule count_upto_cong)
    fix i assume i: "i < 64 - ?rb"
    then have "n \<le> 64 * j + (?rb + i)" "64 * j + (?rb + i) < 64 * StorageSize n"
      using j by (simp_all add: min_def split: if_splits)
    then have "\<not> bit_at bits (64 * j + (?rb + i))"
      using assms(1) by (simp add: padding_zero_def)
    moreover have "?rb + i < 64"
      using i by simp
    ultimately show "bit (bits ! j) (?rb + i) = False"
      using bit_at_word [of "?rb + i" bits j] by simp
  qed
  also have "\<dots> = 0"
    by (simp add: count_upto_def)
  finally show ?thesis
    using count_upto_add [of "bit (bits ! j)" ?rb "64 - ?rb"]
    by (simp add: set_bits64_count)
qed

lemma zeros_before_word_next:
  assumes "padding_zero bits n" "64 * j < n"
  shows "zeros_before_word bits n (j + 1)
           = zeros_before_word bits n j + (min (n - 64 * j) 64 - builtin_popcountll (bits ! j))"
proof -
  let ?rb = "min (n - 64 * j) 64"
  have m: "min n (64 * (j + 1)) = 64 * j + ?rb" "min n (64 * j) = 64 * j"
    using assms(2) by arith+
  show ?thesis
    unfolding zeros_before_word_def m
    using count_not_word [of ?rb bits j] popcount_real_bits [OF assms]
    by simp
qed

lemma select_0_scan_spec:
  assumes bv: "bit_vector bits n"
    and W: "\<And>i. i < 8 \<Longrightarrow> W ! i = eff_word bits (StorageSize n) (8 * b + i)"
    and C: "\<And>i. i < 8 \<Longrightarrow> C ! i = builtin_popcountll (eff_word bits (StorageSize n) (8 * b + i))"
    and b: "8 * b + 8 \<le> 67108864"
  defines "M \<equiv> (zeros_before_word bits n (8 * b) + 511) div 512"
  shows "i \<le> 8 \<Longrightarrow> zeros_before_word bits n (8 * b + i) \<le> 512 * M \<Longrightarrow>
     select_0_scan n (8 * b) W C S (zeros_before_word bits n (8 * b + i)) i
       = Some (if 512 * M < zeros_before_word bits n (8 * b + 8)
               then S @ [select0_spec bits n (512 * M)] else S)"
proof (induction "8 - i" arbitrary: i)
  case 0
  then have "i = 8" by simp
  with "0.prems" show ?case
    by (subst select_0_scan.simps) simp
next
  case (Suc k)
  let ?A = "StorageSize n"
  let ?j = "8 * b + i"
  let ?z = "zeros_before_word bits n ?j"
  let ?P = "\<lambda>i. \<not> bit_at bits i"
  from Suc.hyps Suc.prems have i: "i < 8" by simp
  have pz: "padding_zero bits n" and n: "n < 4294967296"
    using bv by (simp_all add: bit_vector_def)
  have off: "u32 ((8 * b + i) * 64) = 64 * ?j"
    using b i by (simp add: u32_def)
  show ?case
  proof (cases "64 * ?j < n")
    case False
    have "min n (64 * (8 * b + 8)) = n" "min n (64 * ?j) = n"
      using False i by (simp_all add: min_def)
    then have "zeros_before_word bits n (8 * b + 8) = ?z"
      by (simp add: zeros_before_word_def)
    with Suc.prems(2) False i off show ?thesis
      by (subst select_0_scan.simps) simp
  next
    case True
    then have j: "?j < ?A"
      by (rule word_below_size)
    then have w: "eff_word bits ?A ?j = bits ! ?j"
      by (simp add: eff_word_def)
    let ?w = "bits ! ?j"
    let ?rb = "min (n - 64 * ?j) 64"
    let ?wz = "?rb - builtin_popcountll ?w"
    have cnt: "builtin_popcountll ?w = count_upto (bit ?w) ?rb"
      using pz True by (rule popcount_real_bits)
    then have cnt_le: "builtin_popcountll ?w \<le> ?rb"
      using count_upto_le [of "bit ?w" ?rb] by simp
    have z32: "?z < 4294967296"
      using count_upto_le [of ?P "min n (64 * ?j)"] n by (simp add: zeros_before_word_def)
    have lower: "512 * M < ?z + 512"
      using ceil512_bounds(2) [of "zeros_before_word bits n (8 * b)"]
        zeros_before_word_mono [of "8 * b" ?j bits n]
      by (simp add: M_def)
    have skip: "u32_neg ?z mod 512 = 512 * M - ?z"
      using Suc.prems(2) lower z32 by (rule u32_neg_skip)
    have next_z: "zeros_before_word bits n (8 * b + (i + 1)) = ?z + ?wz"
      using zeros_before_word_next [OF pz True] by (simp add: add.assoc)
    have rem: "u32_sub n (64 * ?j) = n - 64 * ?j"
      using True n by simp
    have wz: "u32_sub ?rb (C ! i) = ?wz"
      using cnt_le C [OF i] w by simp
    show ?thesis
    proof (cases "512 * M - ?z < ?wz")
      case cross: True
      then have cross1: "512 * M < zeros_before_word bits n (8 * b + (i + 1))"
        using next_z Suc.prems(2) by linarith
      have "zeros_before_word bits n (8 * b + (i + 1)) \<le> zeros_before_word bits n (8 * b + 8)"
        using i by (intro zeros_before_word_mono) simp
      with cross1 have cross8: "512 * M < zeros_before_word bits n (8 * b + 8)"
        by simp
      have "512 * M - ?z < builtin_popcountll (NOT ?w)"
        using cross by (simp add: popcountll_NOT)
      from nth_bit_Some [OF this] obtain q where
        q: "nth_bit (NOT ?w) (512 * M - ?z) = Some q" "q < 64" "bit (NOT ?w) q"
          "count_upto (bit (NOT ?w)) q = 512 * M - ?z"
        by blast
      have notbit: "\<not> bit ?w q"
        using q(3) by (simp add: bit_not_iff)
      have cq: "q - count_upto (bit ?w) q = 512 * M - ?z"
        using q(2,4) count_NOT_word [of q ?w] by simp
      have q_rb: "q < ?rb"
      proof (rule ccontr)
        assume "\<not> q < ?rb"
        then have "?rb \<le> q" by (simp only: not_less)
        from count_upto_mono [OF this, of "bit (NOT ?w)"]
        have "?rb - count_upto (bit ?w) ?rb \<le> 512 * M - ?z"
          using q(2,4) count_NOT_word [of ?rb ?w] by simp
        with cross cnt show False by simp
      qed
      then have p: "64 * ?j + q < n"
        using True by (simp add: min_def split: if_splits)
      have zj: "count_upto ?P (64 * ?j) = ?z"
        using True by (simp add: zeros_before_word_def min_def)
      have "count_upto ?P (64 * ?j + q) = 512 * M"
        using count_not_word [of q bits ?j] q(2) cq zj Suc.prems(2) by simp
      moreover have "\<not> bit_at bits (64 * ?j + q)"
        using q(2) notbit bit_at_word [of q bits ?j] by simp
      ultimately have "select0_spec bits n (512 * M) = 64 * ?j + q"
        using p nth_filter_upt_eq [of "64 * ?j + q" n ?P "512 * M"]
        by (simp add: select0_spec_def)
      moreover have "u32 (64 * ?j + q) = 64 * ?j + q"
        using p n by (simp add: u32_def)
      ultimately show ?thesis
        using cross True i cross8 q(1) skip off W [OF i] w rem wz
        by (subst select_0_scan.simps) (simp add: Let_def)
    next
      case False
      then have le: "zeros_before_word bits n (8 * b + (i + 1)) \<le> 512 * M"
        using next_z Suc.prems(2) by linarith
      have "zeros_before_word bits n (8 * b + (i + 1)) < 4294967296"
        using count_upto_le [of ?P "min n (64 * (8 * b + (i + 1)))"] n
        by (simp add: zeros_before_word_def)
      then have s': "u32 (?z + ?wz) = zeros_before_word bits n (8 * b + (i + 1))"
        using next_z by (simp add: u32_def)
      have "select_0_scan n (8 * b) W C S (zeros_before_word bits n (8 * b + (i + 1))) (i + 1)
              = Some (if 512 * M < zeros_before_word bits n (8 * b + 8)
                      then S @ [select0_spec bits n (512 * M)] else S)"
        using Suc.hyps i le by (intro Suc.hyps(1)) simp_all
      then show ?thesis
        using False True i skip s' off rem wz
        by (subst select_0_scan.simps) (simp add: Let_def)
    qed
  qed
qed

lemma rank_list_update:
  assumes "b < m"
  shows "(map f [0..<b] @ replicate (m - b) d)[b := x]
           = map f [0..<b] @ x # replicate (m - Suc b) d"
proof -
  from assms obtain k where k: "m - b = Suc k"
    by (cases "m - b") auto
  then have "m - Suc b = k"
    by simp
  then show ?thesis
    by (simp add: list_update_append k)
qed

lemma rank_list_nth:
  assumes "b < m"
  shows "vec_at (map f [0..<b] @ replicate (m - b) d) b = Some d"
  using assms by (simp add: vec_at_def nth_append)

lemma cum_le_positions: "j \<le> A \<Longrightarrow> cum bits A j \<le> 64 * j"
  using count_upto_le [of "bit_at bits" "64 * j"] by (simp add: cum_count)

lemma block_start_in_vector:
  assumes "b < (StorageSize n + 7) div 8"
  shows "8 * b < StorageSize n" "512 * b < n"
proof -
  show 1: "8 * b < StorageSize n"
    using assms blocks_cover(2) [of "StorageSize n"] by linarith
  then show "512 * b < n"
    using StorageSize_bounds(2) [of n] by linarith
qed

lemma BuildIndex_block_result:
  assumes "block_words (bits_' idx) A w = Some W"
    and "vec_at (rank_index_' idx) (w div 8) = Some e"
    and "fill_rank_index_entry dbg e c (map builtin_popcountll W) = Some (e', c')"
    and "e0 \<Longrightarrow> select_0_scan (num_bits_' idx) w W (map builtin_popcountll W)
                  (select_0_index_' idx) z 0 = Some s0"
    and "e1 \<Longrightarrow> select_1_scan w W (map builtin_popcountll W) (select_1_index_' idx) c 0 = Some s1"
  shows "BuildIndex_block dbg e0 e1 A idx w c z =
     Some (idx\<lparr>rank_index_' := (rank_index_' idx)[w div 8 := e'],
               select_0_index_' := (if e0 then s0 else select_0_index_' idx),
               select_1_index_' := (if e1 then s1 else select_1_index_' idx)\<rparr>,
           c', (if e0 then u32 (z + u32_sub (8 * 64) (u32_sub c' c)) else z))"
proof (cases e0; cases e1)
  assume "e0" "e1"
  with assms show ?thesis
    by (simp add: BuildIndex_block_def Let_def)
next
  assume "e0" "\<not> e1"
  with assms(1-4) show ?thesis
    by (auto simp add: BuildIndex_block_def Let_def intro!: BitmapIndex.equality)
next
  assume "\<not> e0" "e1"
  with assms(1-3,5) show ?thesis
    by (auto simp add: BuildIndex_block_def Let_def intro!: BitmapIndex.equality)
next
  assume "\<not> e0" "\<not> e1"
  with assms(1-3) show ?thesis
    by (auto simp add: BuildIndex_block_def Let_def intro!: BitmapIndex.equality)
qed

lemma BuildIndex_block_spec:
  assumes bv: "bit_vector bits n" and b: "b < (StorageSize n + 7) div 8"
    and z: "e0 \<Longrightarrow> z = 512 * b - cum bits (StorageSize n) (8 * b)"
  shows "\<exists>z'. BuildIndex_block dbg e0 e1 (StorageSize n) (loop_state bits n e0 e1 b) (8 * b)
                (cum bits (StorageSize n) (8 * b)) z
              = Some (loop_state bits n e0 e1 (b + 1), cum bits (StorageSize n) (8 * b + 8), z')
           \<and> (e0 \<longrightarrow> b + 1 < (StorageSize n + 7) div 8 \<longrightarrow>
                z' = 512 * (b + 1) - cum bits (StorageSize n) (8 * (b + 1)))"
proof -
  let ?A = "StorageSize n"
  let ?nb = "(?A + 7) div 8"
  let ?c = "cum bits ?A (8 * b)"
  let ?c' = "cum bits ?A (8 * b + 8)"
  let ?W = "[eff_word bits ?A (8 * b), eff_word bits ?A (8 * b + 1), eff_word bits ?A (8 * b + 2),
             eff_word bits ?A (8 * b + 3), eff_word bits ?A (8 * b + 4), eff_word bits ?A (8 * b + 5),
             eff_word bits ?A (8 * b + 6), eff_word bits ?A (8 * b + 7)]"
  let ?C = "map builtin_popcountll ?W"
  let ?f0 = "\<lambda>m. select0_spec bits n (512 * m)"
  let ?f1 = "\<lambda>m. select1_spec bits n (512 * m)"
  let ?M0 = "(zeros_before_word bits n (8 * b) + 511) div 512"
  let ?M1 = "(?c + 511) div 512"
  have pz: "padding_zero bits n" and n: "n < 4294967296" and len: "?A \<le> length bits"
    using bv by (simp_all add: bit_vector_def)
  note start = block_start_in_vector [OF b]
  have bound: "8 * b + 8 \<le> 67108864"
    using blocks_bound(2) [OF n] b by linarith
  have words: "block_words bits ?A (8 * b) = Some ?W"
    using start(1) len by (rule block_words_eq)
  have W: "?W ! i = eff_word bits ?A (8 * b + i)" if "i < 8" for i
    using that by (rule block_nth)
  have C: "?C ! i = builtin_popcountll (eff_word bits ?A (8 * b + i))" if "i < 8" for i
    using that W [OF that] by (simp only: nth_map length_Cons list.size)
  have c'32: "?c' < 4294967296"
    by (rule cum_less_2p32 [OF bv])
  have fill: "fill_rank_index_entry dbg default_entry ?c ?C = Some (rank_entry bits ?A b, ?c')"
    using c'32 by (rule fill_rank_index_entry_block)
  have c_le: "?c \<le> ?c'" "?c' \<le> ?c + 512"
    using cum_mono [of "8 * b" "8 * b + 8" bits ?A] cum_add_le [of bits ?A "8 * b" 8] by simp_all
  have scan1: "select_1_scan (8 * b) ?W ?C S ?c 0
                 = Some (if 512 * ?M1 < ?c' then S @ [?f1 ?M1] else S)" for S
    using select_1_scan_spec [OF bv W C bound, of 0 S] ceil512_bounds(1) [of ?c] by simp
  have M1': "(?c' + 511) div 512 = (if 512 * ?M1 < ?c' then ?M1 + 1 else ?M1)"
    using c_le by (rule ceil512_step)
  have zb: "zeros_before_word bits n (8 * b) = 512 * b - ?c"
    using start(2) by (simp add: zeros_before_word_eq [OF pz] min_def)
  have z_le: "zeros_before_word bits n (8 * b) \<le> zeros_before_word bits n (8 * b + 8)"
    "zeros_before_word bits n (8 * b + 8) \<le> zeros_before_word bits n (8 * b) + 512"
    using zeros_before_word_mono [of "8 * b" "8 * b + 8" bits n]
      zeros_before_word_step [of bits n "8 * b" 8] by simp_all
  have scan0: "select_0_scan n (8 * b) ?W ?C S (zeros_before_word bits n (8 * b)) 0
                 = Some (if 512 * ?M0 < zeros_before_word bits n (8 * b + 8)
                         then S @ [?f0 ?M0] else S)" for S
    using select_0_scan_spec [OF bv W C bound, of 0 S]
      ceil512_bounds(1) [of "zeros_before_word bits n (8 * b)"] by simp
  have M0': "(zeros_before_word bits n (8 * b + 8) + 511) div 512
               = (if 512 * ?M0 < zeros_before_word bits n (8 * b + 8) then ?M0 + 1 else ?M0)"
    using z_le by (rule ceil512_step)
  have c_pos: "?c \<le> 512 * b"
    using cum_le_positions [of "8 * b" ?A bits] start(1) by simp
  have sub: "u32_sub ?c' ?c = ?c' - ?c" "u32_sub 512 (?c' - ?c) = 512 - (?c' - ?c)"
    using c_le c'32 by simp_all
  have eq8: "8 * (b + 1) = 8 * b + 8"
    by simp
  have z'_next: "u32 (512 * b - ?c + (512 - (?c' - ?c))) = 512 * (b + 1) - ?c'"
    if "b + 1 < ?nb"
  proof -
    have "512 * (b + 1) < n"
      using block_start_in_vector(2) [OF that] .
    moreover have "512 * b - ?c + (512 - (?c' - ?c)) = 512 * (b + 1) - ?c'"
      using c_le c_pos by simp
    ultimately show ?thesis
      using n by (simp add: u32_def)
  qed
  have entry: "vec_at (rank_index_' (loop_state bits n e0 e1 b)) (8 * b div 8) = Some default_entry"
    using b rank_list_nth [of b "?nb + 1" "rank_entry bits ?A" default_entry]
    by (simp add: loop_state_def)
  have upd: "(rank_index_' (loop_state bits n e0 e1 b))[8 * b div 8 := rank_entry bits ?A b]
               = rank_index_' (loop_state bits n e0 e1 (b + 1))"
    using b rank_list_update [of b "?nb + 1" "rank_entry bits ?A" default_entry "rank_entry bits ?A b"]
    by (simp add: loop_state_def)
  have s0': "select_0_index_' (loop_state bits n e0 e1 (b + 1))
               = (if e0 then (if 512 * ?M0 < zeros_before_word bits n (8 * b + 8)
                              then map ?f0 [0..<?M0] @ [?f0 ?M0] else map ?f0 [0..<?M0]) else [])"
    using M0' unfolding loop_state_def eq8 by simp
  have s1': "select_1_index_' (loop_state bits n e0 e1 (b + 1))
               = (if e1 then (if 512 * ?M1 < ?c' then map ?f1 [0..<?M1] @ [?f1 ?M1]
                              else map ?f1 [0..<?M1]) else [])"
    using M1' unfolding loop_state_def eq8 by simp
  have fields: "bits_' (loop_state bits n e0 e1 b) = bits" "num_bits_' (loop_state bits n e0 e1 b) = n"
    "select_0_index_' (loop_state bits n e0 e1 b) = (if e0 then map ?f0 [0..<?M0] else [])"
    "select_1_index_' (loop_state bits n e0 e1 b) = (if e1 then map ?f1 [0..<?M1] else [])"
    by (simp_all add: loop_state_def)
  have next_state: "loop_state bits n e0 e1 (b + 1) =
      \<lparr>bits_' = bits, num_bits_' = n,
       rank_index_' = rank_index_' (loop_state bits n e0 e1 (b + 1)),
       select_0_index_' = select_0_index_' (loop_state bits n e0 e1 (b + 1)),
       select_1_index_' = select_1_index_' (loop_state bits n e0 e1 (b + 1))\<rparr>"
    by (simp add: loop_state_def)
  have this_state: "loop_state bits n e0 e1 b =
      \<lparr>bits_' = bits, num_bits_' = n,
       rank_index_' = rank_index_' (loop_state bits n e0 e1 b),
       select_0_index_' = select_0_index_' (loop_state bits n e0 e1 b),
       select_1_index_' = select_1_index_' (loop_state bits n e0 e1 b)\<rparr>"
    by (simp add: loop_state_def)
  let ?s0 = "if 512 * ?M0 < zeros_before_word bits n (8 * b + 8)
             then select_0_index_' (loop_state bits n e0 e1 b) @ [?f0 ?M0]
             else select_0_index_' (loop_state bits n e0 e1 b)"
  let ?s1 = "if 512 * ?M1 < ?c' then select_1_index_' (loop_state bits n e0 e1 b) @ [?f1 ?M1]
             else select_1_index_' (loop_state bits n e0 e1 b)"
  let ?idx = "loop_state bits n e0 e1 b"
  let ?X = "?idx\<lparr>rank_index_' := (rank_index_' ?idx)[8 * b div 8 := rank_entry bits ?A b],
                 select_0_index_' := (if e0 then ?s0 else select_0_index_' ?idx),
                 select_1_index_' := (if e1 then ?s1 else select_1_index_' ?idx)\<rparr>"
  define z' where "z' = (if e0 then u32 (z + u32_sub (8 * 64) (u32_sub ?c' ?c)) else z)"
  have a1: "block_words (bits_' ?idx) ?A (8 * b) = Some ?W"
    using words by (simp only: fields)
  have a4: "select_0_scan (num_bits_' ?idx) (8 * b) ?W ?C (select_0_index_' ?idx) z 0 = Some ?s0"
    if e0
    using scan0 [of "select_0_index_' ?idx"] z [OF that] zb by (simp only: fields(2))
  have a5: "select_1_scan (8 * b) ?W ?C (select_1_index_' ?idx) ?c 0 = Some ?s1"
    by (rule scan1)
  have run: "BuildIndex_block dbg e0 e1 ?A ?idx (8 * b) ?c z = Some (?X, ?c', z')"
    unfolding z'_def by (rule BuildIndex_block_result [OF a1 entry fill a4 a5])
  have X: "?X = loop_state bits n e0 e1 (b + 1)"
  proof (rule BitmapIndex.equality)
    show "rank_index_' ?X = rank_index_' (loop_state bits n e0 e1 (b + 1))"
      using upd by simp
    show "select_0_index_' ?X = select_0_index_' (loop_state bits n e0 e1 (b + 1))"
      unfolding s0' by (simp add: loop_state_def)
    show "select_1_index_' ?X = select_1_index_' (loop_state bits n e0 e1 (b + 1))"
      unfolding s1' by (simp add: loop_state_def)
  qed (simp_all add: loop_state_def)
  have "z' = 512 * (b + 1) - cum bits ?A (8 * (b + 1))" if e0 "b + 1 < ?nb"
    using z'_next [OF that(2)] that(1) z [OF that(1)] sub unfolding eq8 z'_def by simp
  with run X show ?thesis
    by auto
qed

lemma BuildIndex_loop_spec:
  assumes bv: "bit_vector bits n"
  shows "b \<le> (StorageSize n + 7) div 8 \<Longrightarrow>
     (e0 \<Longrightarrow> b < (StorageSize n + 7) div 8 \<Longrightarrow> z = 512 * b - cum bits (StorageSize n) (8 * b)) \<Longrightarrow>
     BuildIndex_loop dbg e0 e1 (StorageSize n) (loop_state bits n e0 e1 b) (8 * b)
         (cum bits (StorageSize n) (8 * b)) z
       = Some (loop_state bits n e0 e1 ((StorageSize n + 7) div 8),
               cum bits (StorageSize n) (8 * ((StorageSize n + 7) div 8)))"
proof (induction "(StorageSize n + 7) div 8 - b" arbitrary: b z)
  case 0
  then have b: "b = (StorageSize n + 7) div 8"
    by simp
  have "\<not> 8 * b < StorageSize n"
    unfolding b using blocks_cover(1) [of "StorageSize n"] by simp
  then show ?case
    by (subst BuildIndex_loop.simps) (simp add: b)
next
  case (Suc k)
  let ?A = "StorageSize n"
  from Suc.hyps have b: "b < (?A + 7) div 8"
    by simp
  from BuildIndex_block_spec [OF bv b, of e0 z dbg e1] Suc.prems(2) b
  obtain z' where
    step: "BuildIndex_block dbg e0 e1 ?A (loop_state bits n e0 e1 b) (8 * b) (cum bits ?A (8 * b)) z
             = Some (loop_state bits n e0 e1 (b + 1), cum bits ?A (8 * b + 8), z')"
    and z': "e0 \<Longrightarrow> b + 1 < (?A + 7) div 8 \<Longrightarrow> z' = 512 * (b + 1) - cum bits ?A (8 * (b + 1))"
    by blast
  have eq8: "8 * b + 8 = 8 * (b + 1)"
    by simp
  have IH: "BuildIndex_loop dbg e0 e1 ?A (loop_state bits n e0 e1 (b + 1)) (8 * (b + 1))
              (cum bits ?A (8 * (b + 1))) z'
            = Some (loop_state bits n e0 e1 ((?A + 7) div 8), cum bits ?A (8 * ((?A + 7) div 8)))"
    using Suc.hyps b z' by (intro Suc.hyps(1)) simp_all
  show ?case
    using block_start_in_vector(1) [OF b] step IH
    by (subst BuildIndex_loop.simps) (simp only: eq8 if_True option.case prod.case)
qed

lemma BuildIndex_result:
  fixes bits n
  defines "initial \<equiv> \<lparr>bits_' = bits, num_bits_' = n, rank_index_' = [],
                       select_0_index_' = [], select_1_index_' = []\<rparr>"
  assumes n: "n < 2 ^ 32"
    and loop: "BuildIndex_loop dbg e0 e1
                 (ArraySize (initial\<lparr>rank_index_' := replicate (rank_index_size initial) default_entry\<rparr>))
                 (initial\<lparr>rank_index_' := replicate (rank_index_size initial) default_entry\<rparr>) 0 0 0
               = Some (idx, c)"
  shows "BuildIndex dbg bits n e0 e1 =
     Some (idx\<lparr>rank_index_' := (rank_index_' idx)[length (rank_index_' idx) - 1 :=
                    set_absolute_ones_count (last (rank_index_' idx)) c],
               select_0_index_' := (if e0 then select_0_index_' idx @ [n] else select_0_index_' idx),
               select_1_index_' := (if e1 then select_1_index_' idx @ [n] else select_1_index_' idx)\<rparr>)"
proof -
  have u: "u32 n = n"
    using n by (simp add: u32_def)
  show ?thesis
    unfolding BuildIndex_def Let_def loop [unfolded initial_def]
    using n by (cases e0; cases e1) (auto simp add: u intro!: BitmapIndex.equality)
qed

lemma built_rank_index_length:
  "length (built_rank_index bits n) = (StorageSize n + 7) div 8 + 1"
  by (simp add: built_rank_index_def)

text \<open>The index that \<open>BuildIndex\<close> builds over a well-formed bit vector.\<close>

lemma BuildIndex_built:
  assumes bv: "bit_vector bits n"
  shows "BuildIndex dbg bits n e0 e1 = Some (built_index bits n e0 e1)"
proof -
  let ?A = "StorageSize n"
  let ?nb = "(?A + 7) div 8"
  have pz: "padding_zero bits n" and n: "n < 4294967296"
    using bv by (simp_all add: bit_vector_def)
  have init: "\<lparr>bits_' = bits, num_bits_' = n, rank_index_' = replicate (?nb + 1) default_entry,
                select_0_index_' = [], select_1_index_' = []\<rparr> = loop_state bits n e0 e1 0"
    by (simp add: loop_state_def zeros_before_word_def)
  have loop: "BuildIndex_loop dbg e0 e1 ?A (loop_state bits n e0 e1 0) 0 0 0
                = Some (loop_state bits n e0 e1 ?nb, cum bits ?A (8 * ?nb))"
    using BuildIndex_loop_spec [OF bv, of 0 e0 0 dbg e1] by simp
  have total: "cum bits ?A (8 * ?nb) = rank1_spec bits n"
    using cum_beyond [of ?A "8 * ?nb" bits] blocks_cover(1) [of ?A] cum_total [OF pz]
    by (simp add: rank1_spec_count)
  have "min n (64 * (8 * ?nb)) = n"
    using blocks_cover(1) [of ?A] StorageSize_bounds(1) [of n] by linarith
  then have ztotal: "zeros_before_word bits n (8 * ?nb) = n - rank1_spec bits n"
    by (simp add: zeros_before_word_def count_upto_compl rank1_spec_count)
  have final: "loop_state bits n e0 e1 ?nb
      \<lparr>rank_index_' := (rank_index_' (loop_state bits n e0 e1 ?nb))
         [length (rank_index_' (loop_state bits n e0 e1 ?nb)) - 1 :=
            set_absolute_ones_count (last (rank_index_' (loop_state bits n e0 e1 ?nb)))
              (rank1_spec bits n)],
       select_0_index_' := (if e0 then select_0_index_' (loop_state bits n e0 e1 ?nb) @ [n]
                            else select_0_index_' (loop_state bits n e0 e1 ?nb)),
       select_1_index_' := (if e1 then select_1_index_' (loop_state bits n e0 e1 ?nb) @ [n]
                            else select_1_index_' (loop_state bits n e0 e1 ?nb))\<rparr>
      = built_index bits n e0 e1"
    by (rule BitmapIndex.equality)
      (simp_all add: loop_state_def built_index_def built_rank_index_def built_select_0_def
        built_select_1_def total ztotal list_update_append)
  let ?initial = "\<lparr>bits_' = bits, num_bits_' = n, rank_index_' = [],
                    select_0_index_' = [], select_1_index_' = []\<rparr>"
  have I0: "?initial\<lparr>rank_index_' := replicate (rank_index_size ?initial) default_entry\<rparr>
              = loop_state bits n e0 e1 0"
    by (simp add: loop_state_def zeros_before_word_def rank_index_size_def ArraySize_def)
  have A0: "ArraySize (loop_state bits n e0 e1 0) = ?A"
    by (simp add: ArraySize_def loop_state_def)
  have "BuildIndex_loop dbg e0 e1
          (ArraySize (?initial\<lparr>rank_index_' := replicate (rank_index_size ?initial) default_entry\<rparr>))
          (?initial\<lparr>rank_index_' := replicate (rank_index_size ?initial) default_entry\<rparr>) 0 0 0
        = Some (loop_state bits n e0 e1 ?nb, rank1_spec bits n)"
    unfolding I0 A0 using loop total by simp
  from BuildIndex_result [OF _ this] n
  have "BuildIndex dbg bits n e0 e1 =
      Some (loop_state bits n e0 e1 ?nb
      \<lparr>rank_index_' := (rank_index_' (loop_state bits n e0 e1 ?nb))
         [length (rank_index_' (loop_state bits n e0 e1 ?nb)) - 1 :=
            set_absolute_ones_count (last (rank_index_' (loop_state bits n e0 e1 ?nb)))
              (rank1_spec bits n)],
       select_0_index_' := (if e0 then select_0_index_' (loop_state bits n e0 e1 ?nb) @ [n]
                            else select_0_index_' (loop_state bits n e0 e1 ?nb)),
       select_1_index_' := (if e1 then select_1_index_' (loop_state bits n e0 e1 ?nb) @ [n]
                            else select_1_index_' (loop_state bits n e0 e1 ?nb))\<rparr>)"
    by simp
  then show ?thesis
    by (simp only: final)
qed

section \<open>The rank queries on a built index\<close>

lemma u64_sub_id [simp]: "b \<le> a \<Longrightarrow> a < 2 ^ 64 \<Longrightarrow> u64_sub a b = a - b"
  by (simp add: u64_sub_def nat_diff_distrib' flip: of_nat_diff)

lemma built_index_sel [simp]:
  "bits_' (built_index bits n e0 e1) = bits"
  "num_bits_' (built_index bits n e0 e1) = n"
  "rank_index_' (built_index bits n e0 e1) = built_rank_index bits n"
  "select_0_index_' (built_index bits n e0 e1) = (if e0 then built_select_0 bits n else [])"
  "select_1_index_' (built_index bits n e0 e1) = (if e1 then built_select_1 bits n else [])"
  by (simp_all add: built_index_def)

lemma terminator_absolute:
  "v < 4294967296 \<Longrightarrow> absolute_ones_count (set_absolute_ones_count default_entry v) = v"
  by (simp add: absolute_ones_count_def set_absolute_ones_count_def)

lemma terminator_relative:
  assumes "k < 8"
  shows "relative_ones_count dbg (set_absolute_ones_count default_entry v) k = Some 0"
  using assms
  by (simp add: relative_ones_count_less_8 relative_ones_count_1_def relative_ones_count_2_def
      relative_ones_count_3_def relative_ones_count_4_def relative_ones_count_5_def
      relative_ones_count_6_def relative_ones_count_7_def set_absolute_ones_count_def
      default_entry_def)

lemma built_rank_index_nth:
  shows "b < (StorageSize n + 7) div 8 \<Longrightarrow>
           built_rank_index bits n ! b = rank_entry bits (StorageSize n) b"
    and "built_rank_index bits n ! ((StorageSize n + 7) div 8)
           = set_absolute_ones_count default_entry (rank1_spec bits n)"
  by (simp_all add: built_rank_index_def nth_append)

lemma built_rank_index_last:
  "last (built_rank_index bits n) = set_absolute_ones_count default_entry (rank1_spec bits n)"
  by (simp add: built_rank_index_def)

lemma rank1_spec_le: "rank1_spec bits m \<le> m"
  by (simp add: rank1_spec_count count_upto_le)

lemma cum_at_end:
  assumes "padding_zero bits n" "StorageSize n \<le> j"
  shows "cum bits (StorageSize n) j = rank1_spec bits n"
proof -
  have "cum bits (StorageSize n) j = cum bits (StorageSize n) (StorageSize n)"
    by (rule cum_beyond) fact
  then show ?thesis
    by (simp only: cum_total [OF assms(1)] rank1_spec_count)
qed

lemma built_absolute:
  assumes bv: "bit_vector bits n" and b: "b \<le> (StorageSize n + 7) div 8"
  shows "absolute_ones_count (built_rank_index bits n ! b) = cum bits (StorageSize n) (8 * b)"
proof (cases "b < (StorageSize n + 7) div 8")
  case True
  then show ?thesis
    using cum_less_2p32 [OF bv, of "8 * b"] by (simp add: built_rank_index_nth rank_entry_absolute)
next
  case False
  with b have eq: "b = (StorageSize n + 7) div 8" by simp
  have pz: "padding_zero bits n" and n: "n < 4294967296"
    using bv by (simp_all add: bit_vector_def)
  have lt: "rank1_spec bits n < 4294967296"
    using rank1_spec_le [of bits n] n by simp
  have "StorageSize n \<le> 8 * b"
    unfolding eq by (rule blocks_cover(1))
  then have c: "cum bits (StorageSize n) (8 * b) = rank1_spec bits n"
    by (rule cum_at_end [OF pz])
  have e: "built_rank_index bits n ! b = set_absolute_ones_count default_entry (rank1_spec bits n)"
    unfolding eq by (rule built_rank_index_nth(2))
  show ?thesis
    by (simp only: e c terminator_absolute [OF lt])
qed

lemma built_relative:
  assumes bv: "bit_vector bits n" and b: "b \<le> (StorageSize n + 7) div 8" and k: "k < 8"
  shows "relative_ones_count dbg (built_rank_index bits n ! b) k
           = Some (cum bits (StorageSize n) (8 * b + k) - cum bits (StorageSize n) (8 * b))"
proof (cases "b < (StorageSize n + 7) div 8")
  case True
  then show ?thesis
    using k by (simp add: built_rank_index_nth rank_entry_relative)
next
  case False
  with b have eq: "b = (StorageSize n + 7) div 8" by simp
  have pz: "padding_zero bits n"
    using bv by (simp add: bit_vector_def)
  have le: "StorageSize n \<le> 8 * b"
    unfolding eq by (rule blocks_cover(1))
  then have le': "StorageSize n \<le> 8 * b + k" by simp
  have c: "cum bits (StorageSize n) (8 * b) = rank1_spec bits n"
    by (rule cum_at_end [OF pz le])
  have c': "cum bits (StorageSize n) (8 * b + k) = rank1_spec bits n"
    by (rule cum_at_end [OF pz le'])
  have e: "built_rank_index bits n ! b = set_absolute_ones_count default_entry (rank1_spec bits n)"
    unfolding eq by (rule built_rank_index_nth(2))
  show ?thesis
    by (simp only: e c c' terminator_relative [OF k] diff_self_eq_0)
qed

lemma GetIndexOnesCount_built:
  assumes bv: "bit_vector bits n" and w: "w \<le> StorageSize n"
  shows "GetIndexOnesCount dbg (built_index bits n e0 e1) w = Some (cum bits (StorageSize n) w)"
proof -
  have b: "w div 8 \<le> (StorageSize n + 7) div 8"
    using w by arith
  have len: "w div 8 < length (built_rank_index bits n)"
    using b by (simp add: built_rank_index_length)
  have m: "w mod 8 < 8" by simp
  have split: "8 * (w div 8) + w mod 8 = w" by simp
  have le: "cum bits (StorageSize n) (8 * (w div 8)) \<le> cum bits (StorageSize n) w"
    by (rule cum_mono) simp
  have lt: "cum bits (StorageSize n) w < 4294967296"
    by (rule cum_less_2p32 [OF bv])
  have r: "relative_ones_count dbg (built_rank_index bits n ! (w div 8)) (w mod 8)
             = Some (cum bits (StorageSize n) w - cum bits (StorageSize n) (8 * (w div 8)))"
    using built_relative [OF bv b m, of dbg] unfolding split .
  show ?thesis
    using le lt
    by (simp add: GetIndexOnesCount_def vec_at_def len built_absolute [OF bv b] r)
qed

lemma GetOnesCount_built:
  assumes bv: "bit_vector bits n"
  shows "GetOnesCount (built_index bits n e0 e1) = Some (rank1_spec bits n)"
proof -
  have "n < 4294967296" using bv by (simp add: bit_vector_def)
  then have lt: "rank1_spec bits n < 4294967296"
    using rank1_spec_le [of bits n] by simp
  have ne: "built_rank_index bits n \<noteq> []"
    by (simp add: built_rank_index_def)
  show ?thesis
    by (simp add: GetOnesCount_def ne built_rank_index_last terminator_absolute [OF lt])
qed

lemma Rank1_inside:
  assumes bv: "bit_vector bits n" and pos: "0 < end'" and e: "end' < n"
  shows "GetIndexOnesCount dbg (built_index bits n e0 e1) (end' div 64)
           = Some (rank1_spec bits (64 * (end' div 64)))"
    and "vec_at bits (end' div 64) = Some (bits ! (end' div 64))"
    and "Rank1 dbg (built_index bits n e0 e1) end'
           = Some (rank1_spec bits (64 * (end' div 64))
                   + builtin_popcountll (bits ! (end' div 64) AND kLowBitsMasks (end' mod 64)))"
    and "rank1_spec bits (64 * (end' div 64))
           + builtin_popcountll (bits ! (end' div 64) AND kLowBitsMasks (end' mod 64))
         = rank1_spec bits end'"
proof -
  let ?w = "end' div 64" and ?b = "end' mod 64"
  have n: "n < 4294967296" and ss: "StorageSize n \<le> length bits"
    using bv by (simp_all add: bit_vector_def)
  have "64 * ?w < n" using e by arith
  then have w_lt: "?w < StorageSize n" by (rule word_below_size)
  have w32: "?w < 4294967296" using e n by arith
  have G: "GetIndexOnesCount dbg (built_index bits n e0 e1) ?w = Some (cum bits (StorageSize n) ?w)"
    by (rule GetIndexOnesCount_built [OF bv]) (use w_lt in simp)
  have cw: "cum bits (StorageSize n) ?w = rank1_spec bits (64 * ?w)"
    using w_lt by (simp add: cum_count rank1_spec_count)
  show G': "GetIndexOnesCount dbg (built_index bits n e0 e1) ?w = Some (rank1_spec bits (64 * ?w))"
    using G cw by simp
  show V: "vec_at bits ?w = Some (bits ! ?w)"
    using w_lt ss by (simp add: vec_at_def)
  have "count_upto (bit_at bits) (64 * ?w + ?b)
          = count_upto (bit_at bits) (64 * ?w) + count_upto (bit (bits ! ?w)) ?b"
    by (rule count_word) simp
  moreover have "builtin_popcountll (bits ! ?w AND kLowBitsMasks ?b) = count_upto (bit (bits ! ?w)) ?b"
    by (rule popcountll_low_bits) simp
  moreover have "64 * ?w + ?b = end'" by simp
  ultimately show T: "rank1_spec bits (64 * ?w)
           + builtin_popcountll (bits ! ?w AND kLowBitsMasks ?b) = rank1_spec bits end'"
    by (simp only: rank1_spec_count)
  have lt: "rank1_spec bits end' < 4294967296"
    using rank1_spec_le [of bits end'] e n by simp
  have z: "?b = 0 \<Longrightarrow> builtin_popcountll (bits ! ?w AND kLowBitsMasks ?b) = 0"
    by (simp add: kLowBitsMasks_mask popcountll_0)
  show "Rank1 dbg (built_index bits n e0 e1) end'
           = Some (rank1_spec bits (64 * ?w)
                   + builtin_popcountll (bits ! ?w AND kLowBitsMasks ?b))"
  proof (cases "?b = 0")
    case True
    then show ?thesis
      using pos e w32 z by (simp add: Rank1_def Bits_def G' Let_def)
  next
    case False
    have "rank1_spec bits (64 * ?w)
            + builtin_popcountll (bits ! ?w AND kLowBitsMasks ?b) < 4294967296"
      using lt by (simp only: T)
    then show ?thesis
      using pos e w32 False by (simp add: Rank1_def Bits_def G' V Let_def)
  qed
qed

lemma Rank1_built:
  assumes bv: "bit_vector bits n" and e: "end' \<le> n"
  shows "Rank1 dbg (built_index bits n e0 e1) end' = Some (rank1_spec bits end')"
proof -
  consider "end' = 0" | "end' = n" "0 < end'" | "0 < end'" "end' < n"
    using e by arith
  then show ?thesis
  proof cases
    case 1
    then show ?thesis by (simp add: Rank1_def Bits_def rank1_spec_def)
  next
    case 2
    then show ?thesis by (simp add: Rank1_def Bits_def GetOnesCount_built [OF bv])
  next
    case 3
    then show ?thesis
      using Rank1_inside(3) [OF bv 3, of dbg e0 e1] Rank1_inside(4) [OF bv 3] by simp
  qed
qed

lemma Rank1_beyond:
  assumes bv: "bit_vector bits n" and e: "n \<le> end'"
  shows "Rank1 False (built_index bits n e0 e1\<lparr>bits_' := buf\<rparr>) end' = Some (rank1_spec bits n)"
proof -
  have g: "GetOnesCount (built_index bits n e0 e1\<lparr>bits_' := buf\<rparr>)
             = GetOnesCount (built_index bits n e0 e1)"
    by (simp add: GetOnesCount_def)
  show ?thesis
  proof (cases "end' = 0")
    case True
    with e have "n = 0" by simp
    then show ?thesis
      using True by (simp add: Rank1_def Bits_def rank1_spec_def)
  next
    case False
    then show ?thesis
      using e by (simp add: Rank1_def Bits_def g GetOnesCount_built [OF bv])
  qed
qed

lemma Rank1_debug_beyond:
  "num_bits_' idx < end' \<Longrightarrow> Rank1 True idx end' = None"
  by (simp add: Rank1_def Bits_def DFST_CHECK_def)

lemma Rank0_built:
  assumes bv: "bit_vector bits n" and e: "end' \<le> n"
  shows "Rank0 dbg (built_index bits n e0 e1) end' = Some (end' - rank1_spec bits end')"
proof -
  have "n < 4294967296" using bv by (simp add: bit_vector_def)
  then have "end' < 2 ^ 64" using e by simp
  then show ?thesis
    using rank1_spec_le [of bits end']
    by (simp add: Rank0_def Rank1_built [OF bv e])
qed

lemma Select1_exhausted:
  assumes bv: "bit_vector bits n" and k: "rank1_spec bits n \<le> k"
  shows "Select1 dbg (built_index bits n e0 e1) k = Some n"
  using k by (simp add: Select1_def GetOnesCount_built [OF bv] Bits_def)

lemma Select0_exhausted:
  assumes bv: "bit_vector bits n" and k: "n - rank1_spec bits n \<le> k"
  shows "Select0 dbg (built_index bits n e0 e1) k = Some n"
proof -
  have "n < 2 ^ 32" using bv by (simp add: bit_vector_def)
  then show ?thesis
    using k rank1_spec_le [of bits n]
    by (simp add: Select0_def GetOnesCount_built [OF bv] Bits_def)
qed

lemma popcount_1: "builtin_popcountll 1 = 1"
proof -
  have "(1 :: 64 word) = - 1 AND kLowBitsMasks 1" by (simp add: kLowBitsMasks_mask)
  then have "builtin_popcountll 1 = count_upto (bit (- 1 :: 64 word)) 1"
    using popcountll_low_bits [of 1 "- 1"] by simp
  then show ?thesis by (simp add: count_upto_def)
qed

lemma popcount_3: "builtin_popcountll 3 = 2"
proof -
  have "(3 :: 64 word) = - 1 AND kLowBitsMasks 2" by (simp add: kLowBitsMasks_mask mask_numeral)
  then have "builtin_popcountll 3 = count_upto (bit (- 1 :: 64 word)) 2"
    using popcountll_low_bits [of 2 "- 1"] by simp
  then show ?thesis by (simp add: count_upto_def upt_rec)
qed

lemma built_index_bits_update:
  "built_index bits n e0 e1\<lparr>bits_' := bits\<rparr> = built_index bits n e0 e1"
  by (simp add: built_index_def)

lemma bit_vector_empty: "bit_vector bits 0"
  by (simp add: bit_vector_def padding_zero_def StorageSize_def)

lemma bit_vector_example: "bit_vector [3] 64"
  by (simp add: bit_vector_def padding_zero_def StorageSize_def)

lemma bit_vector_example2: "bit_vector [3, 7] 64"
  by (simp add: bit_vector_def padding_zero_def StorageSize_def)

lemma rank1_spec_example: "rank1_spec [3] 64 = 2"
proof -
  have "count_upto (bit_at [3]) (64 * 0 + 64)
          = count_upto (bit_at [3]) (64 * 0) + count_upto (bit ([3 :: 64 word] ! 0)) 64"
    by (rule count_word) simp
  then show ?thesis
    by (simp add: rank1_spec_count count_upto_0 popcount_3 [unfolded set_bits64_count])
qed

lemma rank1_spec_example1: "rank1_spec [3] (Suc 0) = 1"
  by (simp add: rank1_spec_def bit_at_def)

subsection \<open>Buffers that hold the same bit vector\<close>

lemma bit_at_agree:
  assumes "padding_zero b1 n" "padding_zero b2 n" "\<forall>i<n. bit_at b1 i = bit_at b2 i"
    and "i < 64 * StorageSize n"
  shows "bit_at b1 i = bit_at b2 i"
proof (cases "i < n")
  case True
  with assms(3) show ?thesis by simp
next
  case False
  with assms(4) have "i \<in> {n..<64 * StorageSize n}" by simp
  with assms(1,2) show ?thesis by (simp add: padding_zero_def)
qed

lemma words_agree:
  assumes "padding_zero b1 n" "padding_zero b2 n" "\<forall>i<n. bit_at b1 i = bit_at b2 i"
    and "j < StorageSize n"
  shows "b1 ! j = b2 ! j"
proof (rule bit_word_eqI)
  fix q
  assume "q < LENGTH(64)"
  then have q: "q < 64" by simp
  then have "64 * j + q < 64 * StorageSize n"
    using assms(4) by arith
  then have "bit_at b1 (64 * j + q) = bit_at b2 (64 * j + q)"
    by (rule bit_at_agree [OF assms(1,2,3)])
  then show "bit (b1 ! j) q = bit (b2 ! j) q"
    by (simp only: bit_at_word [OF q])
qed

lemma built_index_agree:
  assumes "bit_vector b1 n" "bit_vector b2 n" "\<forall>i<n. bit_at b1 i = bit_at b2 i"
  shows "built_rank_index b1 n = built_rank_index b2 n"
    and "built_select_0 b1 n = built_select_0 b2 n"
    and "built_select_1 b1 n = built_select_1 b2 n"
    and "rank1_spec b1 m = rank1_spec b2 m \<or> n < m"
proof -
  have pz: "padding_zero b1 n" "padding_zero b2 n"
    using assms(1,2) by (simp_all add: bit_vector_def)
  have "eff_word b1 (StorageSize n) j = eff_word b2 (StorageSize n) j" for j
    by (simp add: eff_word_def words_agree [OF pz assms(3)])
  then have e: "eff_word b1 (StorageSize n) = eff_word b2 (StorageSize n)"
    by (rule ext)
  have c: "cum b1 (StorageSize n) = cum b2 (StorageSize n)"
    by (rule ext) (simp only: cum_def e)
  have f1: "filter (bit_at b1) [0..<m] = filter (bit_at b2) [0..<m]" if "m \<le> n" for m
    by (rule filter_cong) (use assms(3) that in auto)
  have f0: "filter (\<lambda>i. \<not> bit_at b1 i) [0..<n] = filter (\<lambda>i. \<not> bit_at b2 i) [0..<n]"
    by (rule filter_cong) (use assms(3) in auto)
  have r: "rank1_spec b1 m = rank1_spec b2 m" if "m \<le> n" for m
    by (simp only: rank1_spec_def f1 [OF that])
  have s1: "select1_spec b1 n = select1_spec b2 n"
    by (rule ext) (simp only: select1_spec_def f1 [OF order_refl])
  have s0: "select0_spec b1 n = select0_spec b2 n"
    by (rule ext) (simp only: select0_spec_def f0)
  have re: "rank_entry b1 (StorageSize n) = rank_entry b2 (StorageSize n)"
    by (rule ext) (simp only: rank_entry_def c)
  show "built_rank_index b1 n = built_rank_index b2 n"
    by (simp only: built_rank_index_def re r [OF order_refl])
  show "built_select_0 b1 n = built_select_0 b2 n"
    by (simp only: built_select_0_def s0 r [OF order_refl])
  show "built_select_1 b1 n = built_select_1 b2 n"
    by (simp only: built_select_1_def s1 r [OF order_refl])
  show "rank1_spec b1 m = rank1_spec b2 m \<or> n < m"
    using r [of m] by (cases "m \<le> n") simp_all
qed

section \<open>The select queries on a built index\<close>

lemma select1_spec_props:
  assumes "k < rank1_spec bits n"
  shows "select1_spec bits n k < n" "bit_at bits (select1_spec bits n k)"
    "count_upto (bit_at bits) (select1_spec bits n k) = k"
  using nth_filter_upt [of k "bit_at bits" n] assms
  by (simp_all add: rank1_spec_count select1_spec_def)

lemma select0_spec_props:
  assumes "k < n - rank1_spec bits n"
  shows "select0_spec bits n k < n" "\<not> bit_at bits (select0_spec bits n k)"
    "count_upto (\<lambda>i. \<not> bit_at bits i) (select0_spec bits n k) = k"
  using nth_filter_upt [of k "\<lambda>i. \<not> bit_at bits i" n] assms
  by (simp_all add: rank1_spec_count select0_spec_def count_upto_compl)

lemma select1_spec_eq:
  assumes "p < n" "bit_at bits p" "count_upto (bit_at bits) p = k"
  shows "select1_spec bits n k = p"
  using nth_filter_upt_eq [OF assms(1), of "bit_at bits" k] assms(2,3)
  by (simp add: select1_spec_def)

lemma select0_spec_eq:
  assumes "p < n" "\<not> bit_at bits p" "count_upto (\<lambda>i. \<not> bit_at bits i) p = k"
  shows "select0_spec bits n k = p"
  using nth_filter_upt_eq [OF assms(1), of "\<lambda>i. \<not> bit_at bits i" k] assms(2,3)
  by (simp add: select0_spec_def)

lemma count_upto_less_position:
  assumes "P p" "P q" "count_upto P p < count_upto P q"
  shows "p < q"
proof (rule ccontr)
  assume "\<not> p < q"
  then have "q \<le> p" by simp
  then have "count_upto P q \<le> count_upto P p" by (rule count_upto_mono)
  with assms(3) show False by simp
qed

lemma select1_spec_strict:
  assumes "k1 < k2" "k2 < rank1_spec bits n"
  shows "select1_spec bits n k1 < select1_spec bits n k2"
proof -
  have k1: "k1 < rank1_spec bits n" using assms by simp
  show ?thesis
    by (rule count_upto_less_position [of "bit_at bits"])
      (simp_all add: select1_spec_props [OF k1] select1_spec_props [OF assms(2)] assms(1))
qed

lemma select0_spec_strict:
  assumes "k1 < k2" "k2 < n - rank1_spec bits n"
  shows "select0_spec bits n k1 < select0_spec bits n k2"
proof -
  have k1: "k1 < n - rank1_spec bits n" using assms by simp
  show ?thesis
    by (rule count_upto_less_position [of "\<lambda>i. \<not> bit_at bits i"])
      (simp_all add: select0_spec_props [OF k1] select0_spec_props [OF assms(2)] assms(1))
qed

lemma blocks_eq: "(StorageSize n + 7) div 8 = (n + 511) div 512"
  by (simp add: StorageSize_def)

lemma ones_threshold:
  assumes bv: "bit_vector bits n" and k: "k < rank1_spec bits n"
  shows "cum bits (StorageSize n) j \<le> k \<longleftrightarrow> 64 * j \<le> select1_spec bits n k"
proof -
  let ?q = "select1_spec bits n k"
  note q = select1_spec_props [OF k]
  have pz: "padding_zero bits n"
    using bv by (simp add: bit_vector_def)
  have c: "cum bits (StorageSize n) j = count_upto (bit_at bits) (min n (64 * j))"
    using cum_ones_before [OF pz, of j] by (simp add: ones_before_def)
  show ?thesis
  proof (cases "64 * j \<le> ?q")
    case True
    then have "min n (64 * j) \<le> ?q" by simp
    then have "count_upto (bit_at bits) (min n (64 * j)) \<le> count_upto (bit_at bits) ?q"
      by (rule count_upto_mono)
    then have "cum bits (StorageSize n) j \<le> k"
      by (simp only: c q(3))
    with True show ?thesis by simp
  next
    case False
    then have "?q < min n (64 * j)" using q(1) by simp
    from count_upto_strict [of "bit_at bits", OF q(2) this]
    have "k < cum bits (StorageSize n) j"
      by (simp only: c q(3))
    with False show ?thesis by simp
  qed
qed

lemma zeros_threshold:
  assumes bv: "bit_vector bits n" and k: "k < n - rank1_spec bits n"
  shows "64 * j - cum bits (StorageSize n) j \<le> k \<longleftrightarrow> 64 * j \<le> select0_spec bits n k"
proof -
  let ?p = "select0_spec bits n k"
  let ?P = "\<lambda>i. \<not> bit_at bits i"
  note p = select0_spec_props [OF k]
  have pz: "padding_zero bits n"
    using bv by (simp add: bit_vector_def)
  have z: "count_upto ?P (min n (64 * j)) = min n (64 * j) - cum bits (StorageSize n) j"
    using zeros_before_word_eq [OF pz, of j] by (simp add: zeros_before_word_def)
  show ?thesis
  proof (cases "64 * j \<le> ?p")
    case True
    then have m: "min n (64 * j) = 64 * j" using p(1) by simp
    from True have "count_upto ?P (64 * j) \<le> count_upto ?P ?p"
      by (rule count_upto_mono)
    then have "64 * j - cum bits (StorageSize n) j \<le> k"
      using z by (simp only: m p(3))
    with True show ?thesis by simp
  next
    case False
    then have lt: "?p < min n (64 * j)" using p(1) by simp
    from count_upto_strict [of ?P, OF p(2) lt]
    have "k < min n (64 * j) - cum bits (StorageSize n) j"
      by (simp only: z p(3))
    then have "k < 64 * j - cum bits (StorageSize n) j"
      by arith
    with False show ?thesis by simp
  qed
qed

lemma nth_bit_at:
  assumes "m < 64" "bit w m" "count_upto (bit w) m = r"
  shows "nth_bit w r = Some m"
  using nth_filter_upt_eq [OF assms]
  by (simp add: nth_bit_def set_bits64_def set_bits64_count)

lemma Select1_descend_built:
  assumes c0: "cum bits A (8 * b) \<le> k"
    and th: "\<And>j. cum bits A j \<le> k \<longleftrightarrow> 64 * j \<le> q"
  shows "\<exists>i<8. Select1_descend (rank_entry bits A b) (8 * b) (k - cum bits A (8 * b))
            = (8 * b + i, k - cum bits A (8 * b + i))
          \<and> 64 * (8 * b + i) \<le> q \<and> (i < 7 \<longrightarrow> q < 64 * (8 * b + i + 1))"
proof -
  have m: "cum bits A (8 * b) \<le> cum bits A (8 * b + i)" for i
    by (rule cum_mono) simp
  have lt: "(k - cum bits A (8 * b) < cum bits A (8 * b + i) - cum bits A (8 * b))
              \<longleftrightarrow> q < 512 * b + 64 * i" for i
    using th [of "8 * b + i"] c0 m [of i] by auto
  have sub: "k - cum bits A (8 * b) - (cum bits A (8 * b + i) - cum bits A (8 * b))
               = k - cum bits A (8 * b + i)" for i
    using m [of i] by arith
  have D: "Select1_descend (rank_entry bits A b) (8 * b) (k - cum bits A (8 * b)) =
     (if q < 512 * b + 64 * 4 then
        if q < 512 * b + 64 * 2 then
          if q < 512 * b + 64 * 1 then (8 * b, k - cum bits A (8 * b))
          else (8 * b + 1, k - cum bits A (8 * b + 1))
        else if q < 512 * b + 64 * 3 then (8 * b + 2, k - cum bits A (8 * b + 2))
        else (8 * b + 3, k - cum bits A (8 * b + 3))
      else if q < 512 * b + 64 * 6 then
        if q < 512 * b + 64 * 5 then (8 * b + 4, k - cum bits A (8 * b + 4))
        else (8 * b + 5, k - cum bits A (8 * b + 5))
      else if q < 512 * b + 64 * 7 then (8 * b + 6, k - cum bits A (8 * b + 6))
      else (8 * b + 7, k - cum bits A (8 * b + 7)))"
    by (simp only: Select1_descend_def rank_entry_getters lt sub)
  have q0: "64 * (8 * b) \<le> q"
    using th [of "8 * b"] c0 by simp
  consider "q < 512 * b + 64" | "512 * b + 64 \<le> q" "q < 512 * b + 128"
    | "512 * b + 128 \<le> q" "q < 512 * b + 192" | "512 * b + 192 \<le> q" "q < 512 * b + 256"
    | "512 * b + 256 \<le> q" "q < 512 * b + 320" | "512 * b + 320 \<le> q" "q < 512 * b + 384"
    | "512 * b + 384 \<le> q" "q < 512 * b + 448" | "512 * b + 448 \<le> q"
    by linarith
  then show ?thesis
  proof cases
    case 1 then show ?thesis using q0 by (intro exI [of _ 0]) (simp add: D)
  next
    case 2 then show ?thesis by (intro exI [of _ 1]) (simp add: D)
  next
    case 3 then show ?thesis by (intro exI [of _ 2]) (simp add: D)
  next
    case 4 then show ?thesis by (intro exI [of _ 3]) (simp add: D)
  next
    case 5 then show ?thesis by (intro exI [of _ 4]) (simp add: D)
  next
    case 6 then show ?thesis by (intro exI [of _ 5]) (simp add: D)
  next
    case 7 then show ?thesis by (intro exI [of _ 6]) (simp add: D)
  next
    case 8 then show ?thesis by (intro exI [of _ 7]) (simp add: D)
  qed
qed

lemma linear_search_built:
  assumes gt: "\<And>j. j < length ri \<Longrightarrow> (k < absolute_ones_count (ri ! j)) \<longleftrightarrow> B < j"
    and B: "B + 1 < length ri"
  shows "entry \<le> B + 1 \<Longrightarrow> end' < entry \<or> B + 1 \<le> end' \<Longrightarrow>
           linear_search ri k entry end' = Some (B + 1)"
proof (induction "B + 1 - entry" arbitrary: entry)
  case 0
  then have e: "entry = B + 1" by simp
  show ?case
    using B gt [of "B + 1"] by (subst linear_search.simps) (simp add: e)
next
  case (Suc d)
  then have e: "entry \<le> B" by simp
  then have ne: "entry \<noteq> end'" using Suc.prems by auto
  have len: "entry < length ri" using e B by simp
  have ngt: "\<not> k < absolute_ones_count (ri ! entry)"
    using gt [OF len] e by simp
  have "linear_search ri k (entry + 1) end' = Some (B + 1)"
    by (rule Suc.hyps(1)) (use Suc.hyps(2) Suc.prems e in auto)
  then show ?case
    using ne len ngt by (subst linear_search.simps) simp
qed

lemma upper_bound_built:
  assumes gt: "\<And>j. j < length ri \<Longrightarrow> (k < absolute_ones_count (ri ! j)) \<longleftrightarrow> B < j"
  shows "first \<le> B + 1 \<Longrightarrow> B + 1 \<le> first + len \<Longrightarrow> first + len \<le> length ri \<Longrightarrow>
           upper_bound ri k first len = Some (B + 1)"
proof (induction len arbitrary: first rule: less_induct)
  case (less len)
  show ?case
  proof (cases "len = 0")
    case True
    with less.prems have "first = B + 1" by simp
    with True show ?thesis by (subst upper_bound.simps) simp
  next
    case False
    let ?mid = "first + len div 2"
    have mid: "?mid < length ri" using False less.prems by simp
    show ?thesis
    proof (cases "k < absolute_ones_count (ri ! ?mid)")
      case True
      then have "B < ?mid" using gt [OF mid] by simp
      then have "upper_bound ri k first (len div 2) = Some (B + 1)"
        using less.prems False by (intro less.IH) simp_all
      then show ?thesis
        using False mid True by (subst upper_bound.simps) (simp add: Let_def)
    next
      case nlt: False
      then have "?mid \<le> B" using gt [OF mid] by simp
      then have "upper_bound ri k (?mid + 1) (len - len div 2 - 1) = Some (B + 1)"
        using less.prems False by (intro less.IH) simp_all
      then show ?thesis
        using False mid nlt by (subst upper_bound.simps) (simp add: Let_def)
    qed
  qed
qed

lemma div512_bounds:
  fixes k :: nat
  shows "512 * (k div 512) \<le> k" "k < 512 * (k div 512) + 512" "k < 512 * (k div 512 + 1)"
  by simp_all

lemma div512_less_iff:
  fixes q :: nat
  shows "q div 512 < j \<longleftrightarrow> q < 512 * j"
  using div_less_iff_less_mult [of 512 q j] by (simp add: mult.commute)

lemma div512_less_ceil:
  fixes k :: nat
  assumes "k < r"
  shows "k div 512 < (r + 511) div 512"
  unfolding div512_less_iff using ceil512_bounds(1) [of r] assms by simp

lemma ceil512_gt:
  fixes m :: nat
  assumes "m + 1 < (r + 511) div 512"
  shows "512 * (m + 1) < r"
proof -
  from assms have "m + 2 \<le> (r + 511) div 512" by simp
  then have "512 * (m + 2) \<le> 512 * ((r + 511) div 512)"
    by (simp only: mult_le_mono2)
  with ceil512_bounds(2) [of r] show ?thesis by simp
qed

lemma map_upt_snoc_nth:
  shows "m < M \<Longrightarrow> (map f [0..<M] @ [x]) ! m = f m"
    and "(map f [0..<M] @ [x]) ! M = x"
    and "length (map f [0..<M] @ [x]) = M + 1"
  by (simp_all add: nth_append)

lemma built_select_1_nth:
  shows "m < (rank1_spec bits n + 511) div 512 \<Longrightarrow>
           built_select_1 bits n ! m = select1_spec bits n (512 * m)"
    and "built_select_1 bits n ! ((rank1_spec bits n + 511) div 512) = n"
    and "length (built_select_1 bits n) = (rank1_spec bits n + 511) div 512 + 1"
  unfolding built_select_1_def
  by (rule map_upt_snoc_nth(1), assumption, rule map_upt_snoc_nth(2), rule map_upt_snoc_nth(3))

lemma built_select_0_nth:
  shows "m < (n - rank1_spec bits n + 511) div 512 \<Longrightarrow>
           built_select_0 bits n ! m = select0_spec bits n (512 * m)"
    and "built_select_0 bits n ! ((n - rank1_spec bits n + 511) div 512) = n"
    and "length (built_select_0 bits n) = (n - rank1_spec bits n + 511) div 512 + 1"
  unfolding built_select_0_def
  by (rule map_upt_snoc_nth(1), assumption, rule map_upt_snoc_nth(2), rule map_upt_snoc_nth(3))

text \<open>The two entries of the select-1 table around the \<open>k\<close>-th set bit.\<close>

lemma built_select_1_around:
  assumes k: "k < rank1_spec bits n"
  shows "k div 512 + 1 < length (built_select_1 bits n)"
    and "built_select_1 bits n ! (k div 512) = select1_spec bits n (512 * (k div 512))"
    and "built_select_1 bits n ! (k div 512) \<le> select1_spec bits n k"
    and "select1_spec bits n k < built_select_1 bits n ! (k div 512 + 1)"
    and "built_select_1 bits n ! (k div 512 + 1) \<le> n"
proof -
  let ?M = "(rank1_spec bits n + 511) div 512"
  have si: "k div 512 < ?M" using k by (rule div512_less_ceil)
  show "k div 512 + 1 < length (built_select_1 bits n)"
    using si by (simp add: built_select_1_nth(3))
  show lo: "built_select_1 bits n ! (k div 512) = select1_spec bits n (512 * (k div 512))"
    by (rule built_select_1_nth(1) [OF si])
  have "select1_spec bits n (512 * (k div 512)) \<le> select1_spec bits n k"
  proof (cases "512 * (k div 512) = k")
    case True
    then show ?thesis by simp
  next
    case False
    then have "512 * (k div 512) < k" using div512_bounds(1) [of k] by simp
    then show ?thesis
      using select1_spec_strict [OF _ k] by (simp add: less_imp_le)
  qed
  then show "built_select_1 bits n ! (k div 512) \<le> select1_spec bits n k"
    by (simp only: lo)
  show "select1_spec bits n k < built_select_1 bits n ! (k div 512 + 1)"
    "built_select_1 bits n ! (k div 512 + 1) \<le> n"
  proof -
    have "select1_spec bits n k < built_select_1 bits n ! (k div 512 + 1)
            \<and> built_select_1 bits n ! (k div 512 + 1) \<le> n"
    proof (cases "k div 512 + 1 < ?M")
      case True
      then have k2: "512 * (k div 512 + 1) < rank1_spec bits n" by (rule ceil512_gt)
      have 1: "select1_spec bits n k < select1_spec bits n (512 * (k div 512 + 1))"
        by (rule select1_spec_strict [OF _ k2]) (rule div512_bounds(3))
      have 2: "select1_spec bits n (512 * (k div 512 + 1)) \<le> n"
        using select1_spec_props(1) [OF k2] by (rule less_imp_le)
      show ?thesis
        unfolding built_select_1_nth(1) [OF True] using 1 2 by (rule conjI)
    next
      case False
      with si have "k div 512 + 1 = ?M" by simp
      then show ?thesis
        using select1_spec_props(1) [OF k] by (simp add: built_select_1_nth(2))
    qed
    then show "select1_spec bits n k < built_select_1 bits n ! (k div 512 + 1)"
      "built_select_1 bits n ! (k div 512 + 1) \<le> n"
      by simp_all
  qed
qed

lemma built_select_0_around:
  assumes k: "k < n - rank1_spec bits n"
  shows "k div 512 + 1 < length (built_select_0 bits n)"
    and "built_select_0 bits n ! (k div 512) = select0_spec bits n (512 * (k div 512))"
    and "built_select_0 bits n ! (k div 512) \<le> select0_spec bits n k"
    and "select0_spec bits n k < built_select_0 bits n ! (k div 512 + 1)"
    and "built_select_0 bits n ! (k div 512 + 1) \<le> n"
proof -
  let ?M = "(n - rank1_spec bits n + 511) div 512"
  have si: "k div 512 < ?M" using k by (rule div512_less_ceil)
  show "k div 512 + 1 < length (built_select_0 bits n)"
    using si by (simp add: built_select_0_nth(3))
  show lo: "built_select_0 bits n ! (k div 512) = select0_spec bits n (512 * (k div 512))"
    by (rule built_select_0_nth(1) [OF si])
  have "select0_spec bits n (512 * (k div 512)) \<le> select0_spec bits n k"
  proof (cases "512 * (k div 512) = k")
    case True
    then show ?thesis by simp
  next
    case False
    then have "512 * (k div 512) < k" using div512_bounds(1) [of k] by simp
    then show ?thesis
      using select0_spec_strict [OF _ k] by (simp add: less_imp_le)
  qed
  then show "built_select_0 bits n ! (k div 512) \<le> select0_spec bits n k"
    by (simp only: lo)
  show "select0_spec bits n k < built_select_0 bits n ! (k div 512 + 1)"
    "built_select_0 bits n ! (k div 512 + 1) \<le> n"
  proof -
    have "select0_spec bits n k < built_select_0 bits n ! (k div 512 + 1)
            \<and> built_select_0 bits n ! (k div 512 + 1) \<le> n"
    proof (cases "k div 512 + 1 < ?M")
      case True
      then have k2: "512 * (k div 512 + 1) < n - rank1_spec bits n" by (rule ceil512_gt)
      have 1: "select0_spec bits n k < select0_spec bits n (512 * (k div 512 + 1))"
        by (rule select0_spec_strict [OF _ k2]) (rule div512_bounds(3))
      have 2: "select0_spec bits n (512 * (k div 512 + 1)) \<le> n"
        using select0_spec_props(1) [OF k2] by (rule less_imp_le)
      show ?thesis
        unfolding built_select_0_nth(1) [OF True] using 1 2 by (rule conjI)
    next
      case False
      with si have e: "k div 512 + 1 = ?M" by simp
      show ?thesis
        unfolding e built_select_0_nth(2) using select0_spec_props(1) [OF k] by simp
    qed
    then show "select0_spec bits n k < built_select_0 bits n ! (k div 512 + 1)"
      "built_select_0 bits n ! (k div 512 + 1) \<le> n"
      by simp_all
  qed
qed

text \<open>The absolute counts of the rank index against the \<open>k\<close>-th set bit.\<close>

lemma built_absolute_gt:
  assumes bv: "bit_vector bits n" and k: "k < rank1_spec bits n"
    and j: "j < length (built_rank_index bits n)"
  shows "(k < absolute_ones_count (built_rank_index bits n ! j))
           \<longleftrightarrow> select1_spec bits n k div 512 < j"
proof -
  have j': "j \<le> (StorageSize n + 7) div 8"
    using j by (simp add: built_rank_index_length)
  have "cum bits (StorageSize n) (8 * j) \<le> k \<longleftrightarrow> 64 * (8 * j) \<le> select1_spec bits n k"
    by (rule ones_threshold [OF bv k])
  then show ?thesis
    unfolding built_absolute [OF bv j'] div512_less_iff by auto
qed

lemma ones_block_bound:
  assumes k: "k < rank1_spec bits n"
  shows "select1_spec bits n k div 512 + 1 < length (built_rank_index bits n)"
  using div512_less_ceil [OF select1_spec_props(1) [OF k]]
  unfolding built_rank_index_length blocks_eq by simp

lemma zeros_block_bound:
  assumes k: "k < n - rank1_spec bits n"
  shows "select0_spec bits n k div 512 + 1 < length (built_rank_index bits n)"
  using div512_less_ceil [OF select0_spec_props(1) [OF k]]
  unfolding built_rank_index_length blocks_eq by simp

text \<open>\<open>FindRankIndexEntry\<close> on a built index, for the \<open>k\<close>-th set bit.\<close>

lemma FindRankIndexEntry_found:
  assumes bv: "bit_vector bits n" and k: "k < rank1_spec bits n"
    and s: "(if int end' - int begin' \<le> int kMaxLinearSearchBlocks
             then linear_search (built_rank_index bits n) k begin' end'
             else upper_bound (built_rank_index bits n) k begin' (end' - begin'))
            = Some (select1_spec bits n k div 512 + 1)"
  shows "(do {
       entry \<leftarrow>
         (if int end' - int begin' \<le> int kMaxLinearSearchBlocks
          then linear_search (built_rank_index bits n) k begin' end'
          else upper_bound (built_rank_index bits n) k begin' (end' - begin'));
       e \<leftarrow> (if entry = 0 then None else vec_at (built_rank_index bits n) (entry - 1));
       _ \<leftarrow> DFST_CHECK dbg (absolute_ones_count e \<le> k);
       _ \<leftarrow> DFST_CHECK dbg (entry < length (built_rank_index bits n) \<and>
              absolute_ones_count (built_rank_index bits n ! entry) > k);
       Some (entry - 1)
     }) = Some (select1_spec bits n k div 512)"
proof -
  let ?B = "select1_spec bits n k div 512"
  have B: "?B + 1 < length (built_rank_index bits n)"
    by (rule ones_block_bound [OF k])
  then have B': "?B < length (built_rank_index bits n)" by simp
  have 1: "\<not> k < absolute_ones_count (built_rank_index bits n ! ?B)"
    using built_absolute_gt [OF bv k B'] by simp
  have 2: "k < absolute_ones_count (built_rank_index bits n ! (?B + 1))"
    using built_absolute_gt [OF bv k B] by simp
  show ?thesis
    unfolding s using B B' 1 2 by (simp add: vec_at_def)
qed

lemma FindRankIndexEntry_built:
  assumes bv: "bit_vector bits n" and k: "k < rank1_spec bits n"
  shows "FindRankIndexEntry dbg (built_index bits n e0 e1) k =
     (if e1 \<and> 4294967296 \<le> built_select_1 bits n ! (k div 512 + 1) + 511
           \<and> built_select_1 bits n ! (k div 512) < 512
      then None else Some (select1_spec bits n k div 512))"
proof -
  let ?R = "built_rank_index bits n"
  let ?S = "built_select_1 bits n"
  let ?B = "select1_spec bits n k div 512"
  let ?lo = "built_select_1 bits n ! (k div 512)"
  let ?hi = "built_select_1 bits n ! (k div 512 + 1)"
  have n: "n < 4294967296"
    using bv by (simp add: bit_vector_def)
  have k32: "k < 4294967296"
    using k rank1_spec_le [of bits n] n by simp
  have ne: "?R \<noteq> []"
    by (simp add: built_rank_index_def)
  have tot: "absolute_ones_count (last ?R) = rank1_spec bits n"
    using GetOnesCount_built [OF bv, of e0 e1] ne by (simp add: GetOnesCount_def)
  have c0: "DFST_CHECK dbg (?R \<noteq> [] \<and> k < absolute_ones_count (last ?R)) = Some ()"
    using k by (simp add: ne tot)
  have B: "?B + 1 < length ?R"
    by (rule ones_block_bound [OF k])
  have gt: "\<And>j. j < length ?R \<Longrightarrow> (k < absolute_ones_count (?R ! j)) \<longleftrightarrow> ?B < j"
    by (rule built_absolute_gt [OF bv k])
  note LS = linear_search_built [of ?R k ?B, OF gt B]
  note UB = upper_bound_built [of ?R k ?B, OF gt]
  note fin = FindRankIndexEntry_found [OF bv k, of _ _ dbg]
  let ?srch = "\<lambda>b e. (if int e - int b \<le> int 8 then linear_search ?R k b e
                         else upper_bound ?R k b (e - b))"
  show ?thesis
  proof (cases e1)
    case False
    have s: "?srch 0 (length ?R) = Some (?B + 1)"
      using B by (simp add: LS UB)
    show ?thesis
      unfolding FindRankIndexEntry_def built_index_sel
      apply (simp only: False if_False if_True simp_thms c0 bind.bind_lunit prod.case)
      apply (rule fin)
      apply (rule s)
      done
  next
    case True
    note a = built_select_1_around [OF k]
    have Sne: "(?S = []) = False"
      using a(1) by auto
    have si: "u32 (k div 512) = k div 512"
      using k32 by simp
    have c1: "DFST_CHECK dbg (k div 512 + 1 < length ?S) = Some ()"
      using a(1) by simp
    have v1: "vec_at ?S (k div 512) = Some ?lo"
      using a(1) by (simp add: vec_at_def)
    have v2: "vec_at ?S (k div 512 + 1) = Some ?hi"
      using a(1) by (simp add: vec_at_def)
    have lo_le: "?lo div 512 \<le> ?B"
      using a(3) by (rule div_le_mono)
    have hi_n: "?hi < 4294967296"
      using a(5) n by simp
    let ?E = "u32 (?hi + 512 - 1) div 512"
    note prep = True if_False if_True simp_thms c0 bind.bind_lunit prod.case Sne Let_def si c1 v1 v2
    show ?thesis
    proof (cases "4294967296 \<le> ?hi + 511")
      case wrap: True
      then have "u32 (?hi + 512 - 1) = ?hi + 511 - 4294967296"
        using hi_n by (simp add: u32_def mod_if)
      then have e: "?E = 0"
        using hi_n by simp
      show ?thesis
      proof (cases "?lo < 512")
        case lo0: True
        then have b0: "?lo div 512 = 0" by simp
        have "linear_search ?R k 0 0 = Some 0"
          by (subst linear_search.simps) simp
        then have s: "?srch (?lo div 512) ?E = Some 0"
          unfolding e b0 by simp
        show ?thesis
          unfolding FindRankIndexEntry_def built_index_sel
          apply (simp only: prep s wrap lo0)
          apply simp
          done
      next
        case lo1: False
        then have b1: "0 < ?lo div 512" by simp
        have "linear_search ?R k (?lo div 512) 0 = Some (?B + 1)"
          by (rule LS) (use lo_le b1 in simp_all)
        then have s: "?srch (?lo div 512) ?E = Some (?B + 1)"
          unfolding e by simp
        show ?thesis
          unfolding FindRankIndexEntry_def built_index_sel
          apply (simp only: prep wrap lo1)
          apply (rule fin)
          apply (rule s)
          done
      qed
    next
      case nowrap: False
      then have u: "u32 (?hi + 512 - 1) = ?hi + 511" by simp
      let ?e = "(?hi + 511) div 512"
      have "select1_spec bits n k < 512 * ?e"
        using a(4) ceil512_bounds(1) [of ?hi] by simp
      then have e1: "?B + 1 \<le> ?e"
        using div512_less_iff [of "select1_spec bits n k" ?e] by simp
      have "?e \<le> (n + 511) div 512"
        using a(5) by (intro div_le_mono) simp
      then have e2: "?e \<le> length ?R"
        by (simp add: built_rank_index_length blocks_eq)
      have s: "?srch (?lo div 512) ?E = Some (?B + 1)"
        unfolding u using lo_le e1 e2 by (simp add: LS UB)
      show ?thesis
        unfolding FindRankIndexEntry_def built_index_sel
        apply (simp only: prep nowrap)
        apply (rule fin)
        apply (rule s)
        done
    qed
  qed
qed

text \<open>\<open>Select1\<close> on a built index, for the \<open>k\<close>-th set bit.\<close>

lemma Select1_in_block:
  assumes bv: "bit_vector bits n" and k: "k < rank1_spec bits n"
  defines "q \<equiv> select1_spec bits n k"
  shows "q div 512 < (StorageSize n + 7) div 8"
    and "cum bits (StorageSize n) (8 * (q div 512)) \<le> k"
    and "Select1_descend (rank_entry bits (StorageSize n) (q div 512)) (8 * (q div 512))
           (k - cum bits (StorageSize n) (8 * (q div 512)))
         = (q div 64, k - cum bits (StorageSize n) (q div 64))"
    and "vec_at bits (q div 64) = Some (bits ! (q div 64))"
    and "nth_bit (bits ! (q div 64)) (k - cum bits (StorageSize n) (q div 64)) = Some (q mod 64)"
proof -
  let ?A = "StorageSize n"
  let ?b = "q div 512"
  note qp = select1_spec_props [OF k, folded q_def]
  have th: "\<And>j. cum bits ?A j \<le> k \<longleftrightarrow> 64 * j \<le> q"
    unfolding q_def by (rule ones_threshold [OF bv k])
  show "?b < (?A + 7) div 8"
    unfolding blocks_eq using qp(1) by (rule div512_less_ceil)
  show c0: "cum bits ?A (8 * ?b) \<le> k"
    unfolding th using div512_bounds(1) [of q] by simp
  from Select1_descend_built [of bits ?A ?b k q, OF c0 th]
  obtain i where i: "i < 8"
    and d: "Select1_descend (rank_entry bits ?A ?b) (8 * ?b) (k - cum bits ?A (8 * ?b))
              = (8 * ?b + i, k - cum bits ?A (8 * ?b + i))"
    and lo: "64 * (8 * ?b + i) \<le> q" and hi: "i < 7 \<longrightarrow> q < 64 * (8 * ?b + i + 1)"
    by blast
  have "q < 64 * (8 * ?b + i + 1)"
  proof (cases "i < 7")
    case True
    with hi show ?thesis by simp
  next
    case False
    with i have "i = 7" by simp
    then show ?thesis using div512_bounds(2) [of q] by simp
  qed
  with lo have w: "8 * ?b + i = q div 64" by simp
  show "Select1_descend (rank_entry bits ?A ?b) (8 * ?b) (k - cum bits ?A (8 * ?b))
         = (q div 64, k - cum bits ?A (q div 64))"
    using d unfolding w .
  have "64 * (q div 64) < n" using qp(1) by simp
  then have wA: "q div 64 < ?A" by (rule word_below_size)
  have ss: "?A \<le> length bits"
    using bv by (simp add: bit_vector_def)
  show "vec_at bits (q div 64) = Some (bits ! (q div 64))"
    using wA ss by (simp add: vec_at_def)
  have cw: "cum bits ?A (q div 64) = count_upto (bit_at bits) (64 * (q div 64))"
    using wA by (simp add: cum_count)
  have "count_upto (bit_at bits) (64 * (q div 64) + q mod 64)
          = count_upto (bit_at bits) (64 * (q div 64)) + count_upto (bit (bits ! (q div 64))) (q mod 64)"
    by (rule count_word) simp
  then have "count_upto (bit (bits ! (q div 64))) (q mod 64) = k - cum bits ?A (q div 64)"
    using qp(3) cw by simp
  moreover have "bit (bits ! (q div 64)) (q mod 64)"
    using qp(2) by (simp add: bit_at_def)
  ultimately show "nth_bit (bits ! (q div 64)) (k - cum bits ?A (q div 64)) = Some (q mod 64)"
    by (intro nth_bit_at) simp_all
qed

lemma Select1_built:
  assumes bv: "bit_vector bits n" and k: "k < rank1_spec bits n"
  shows "Select1 dbg (built_index bits n e0 e1) k =
     (if e1 \<and> 4294967296 \<le> built_select_1 bits n ! (k div 512 + 1) + 511
           \<and> built_select_1 bits n ! (k div 512) < 512
      then None else Some (select1_spec bits n k))"
proof -
  let ?A = "StorageSize n"
  let ?q = "select1_spec bits n k"
  let ?b = "?q div 512"
  note I = Select1_in_block [OF bv k]
  have n: "n < 4294967296"
    using bv by (simp add: bit_vector_def)
  have q: "?q < n" by (rule select1_spec_props(1) [OF k])
  have G: "GetOnesCount (built_index bits n e0 e1) = Some (rank1_spec bits n)"
    by (rule GetOnesCount_built [OF bv])
  have nk: "(rank1_spec bits n \<le> k) = False" using k by simp
  have v: "vec_at (built_rank_index bits n) ?b = Some (rank_entry bits ?A ?b)"
    using I(1) by (simp add: vec_at_def built_rank_index_length built_rank_index_nth(1))
  have w: "u32 (?b * 8) = 8 * ?b"
    using q n by simp
  have ab: "u32_sub k (absolute_ones_count (rank_entry bits ?A ?b)) = k - cum bits ?A (8 * ?b)"
    using I(2) k rank1_spec_le [of bits n] n cum_less_2p32 [OF bv, of "8 * ?b"]
    by (simp add: rank_entry_absolute)
  have r: "u32 (64 * (?q div 64) + ?q mod 64) = ?q"
    using q n by simp
  show ?thesis
  proof (cases "e1 \<and> 4294967296 \<le> built_select_1 bits n ! (k div 512 + 1) + 511
           \<and> built_select_1 bits n ! (k div 512) < 512")
    case True
    then have F: "FindRankIndexEntry dbg (built_index bits n e0 e1) k = None"
      by (simp add: FindRankIndexEntry_built [OF bv k])
    have rhs: "(if e1 \<and> 4294967296 \<le> built_select_1 bits n ! (k div 512 + 1) + 511
           \<and> built_select_1 bits n ! (k div 512) < 512
      then None else Some (select1_spec bits n k)) = None"
      using True by simp
    show ?thesis
      unfolding Select1_def rhs
      by (simp only: G nk F bind.bind_lunit bind.bind_lzero if_False)
  next
    case False
    then have F: "FindRankIndexEntry dbg (built_index bits n e0 e1) k = Some ?b"
      by (simp add: FindRankIndexEntry_built [OF bv k])
    show ?thesis
      unfolding Select1_def built_index_sel
      by (simp only: G nk F False bind.bind_lunit if_False v Let_def w ab I(3) prod.case I(4) I(5) r)
  qed
qed

lemma cum_le_64: "cum bits A j \<le> 64 * j"
  using cum_add_le [of bits A 0 j] by simp

lemma blocks_le:
  fixes n :: nat
  shows "n < 4294967296 \<Longrightarrow> (n + 511) div 512 \<le> 8388608"
proof -
  assume "n < 4294967296"
  then have "n + 511 \<le> 4294967806" by simp
  then have "(n + 511) div 512 \<le> 4294967806 div 512" by (rule div_le_mono)
  then show ?thesis by simp
qed

text \<open>The zero count \<open>512 * j - absolute_ones_count\<close> of the rank index, in \<open>uint32_t\<close>,
  against the \<open>k\<close>-th clear bit.\<close>

lemma built_zeros_gt:
  assumes bv: "bit_vector bits n" and k: "k < n - rank1_spec bits n"
    and j: "j < length (built_rank_index bits n)" and j23: "j < 8388608"
  shows "u32_sub (u32 (512 * j)) (absolute_ones_count (built_rank_index bits n ! j))
           = 512 * j - cum bits (StorageSize n) (8 * j)"
    and "(k < u32_sub (u32 (512 * j)) (absolute_ones_count (built_rank_index bits n ! j)))
           \<longleftrightarrow> select0_spec bits n k div 512 < j"
proof -
  have j': "j \<le> (StorageSize n + 7) div 8"
    using j by (simp add: built_rank_index_length)
  have c: "cum bits (StorageSize n) (8 * j) \<le> 512 * j"
    using cum_le_64 [of bits "StorageSize n" "8 * j"] by simp
  have lt: "512 * j < 4294967296" using j23 by simp
  show e: "u32_sub (u32 (512 * j)) (absolute_ones_count (built_rank_index bits n ! j))
           = 512 * j - cum bits (StorageSize n) (8 * j)"
    unfolding built_absolute [OF bv j'] using c lt by simp
  have "64 * (8 * j) - cum bits (StorageSize n) (8 * j) \<le> k
          \<longleftrightarrow> 64 * (8 * j) \<le> select0_spec bits n k"
    by (rule zeros_threshold [OF bv k])
  then show "(k < u32_sub (u32 (512 * j)) (absolute_ones_count (built_rank_index bits n ! j)))
           \<longleftrightarrow> select0_spec bits n k div 512 < j"
    unfolding e div512_less_iff by auto
qed

lemma FindInverted_loop_built:
  assumes test: "\<And>j. j < H \<Longrightarrow>
      (k < u32_sub (u32 (512 * j)) (absolute_ones_count (ri ! j))) \<longleftrightarrow> B < j"
    and H: "H \<le> length ri"
  shows "lo \<le> B \<Longrightarrow> B < hi \<Longrightarrow> hi \<le> H \<Longrightarrow> FindInverted_loop ri k lo hi = Some B"
proof (induction "hi - lo" arbitrary: lo hi rule: less_induct)
  case less
  show ?case
  proof (cases "lo + 1 < hi")
    case False
    with less.prems have "lo = B" by simp
    with False show ?thesis by (subst FindInverted_loop.simps) simp
  next
    case True
    let ?mid = "lo + (hi - lo) div 2"
    have m: "lo < ?mid" "?mid < hi" using True by simp_all
    then have mH: "?mid < H" using less.prems by simp
    then have ml: "\<not> length ri \<le> ?mid" using H by simp
    show ?thesis
    proof (cases "B < ?mid")
      case lt: True
      have "FindInverted_loop ri k lo ?mid = Some B"
        by (rule less.hyps) (use less.prems m lt in simp_all)
      then show ?thesis
        using True ml test [OF mH] lt
        by (subst FindInverted_loop.simps) (simp add: Let_def)
    next
      case ge: False
      have "FindInverted_loop ri k ?mid hi = Some B"
        by (rule less.hyps) (use less.prems m ge in simp_all)
      then show ?thesis
        using True ml test [OF mH] ge
        by (subst FindInverted_loop.simps) (simp add: Let_def)
    qed
  qed
qed

lemma FindInverted_loop_empty:
  "\<not> lo + 1 < hi \<Longrightarrow> FindInverted_loop ri k lo hi = Some lo"
  by (subst FindInverted_loop.simps) simp

lemma DFST_CHECK_if:
  "(if c then DFST_CHECK dbg X else DFST_CHECK dbg Y) = DFST_CHECK dbg (if c then X else Y)"
  by simp

lemma FindInverted_checks:
  assumes bv: "bit_vector bits n" and k: "k < n - rank1_spec bits n"
    and lo: "lo \<le> select0_spec bits n k div 512"
  shows "(do {
       _ \<leftarrow> DFST_CHECK dbg (lo < length (built_rank_index bits n) \<and>
              u32_sub (u32 (lo * kBitsPerRankIndexEntry))
                (absolute_ones_count (built_rank_index bits n ! lo)) \<le> k);
       _ \<leftarrow> (if u32 ((lo + 1) * kBitsPerRankIndexEntry) \<le> n
            then DFST_CHECK dbg (lo + 1 < length (built_rank_index bits n) \<and>
                   u32_sub (u32 ((lo + 1) * kBitsPerRankIndexEntry))
                     (absolute_ones_count (built_rank_index bits n ! (lo + 1))) > k)
            else DFST_CHECK dbg (lo + 1 < length (built_rank_index bits n) \<and>
                   u64_sub n
                     (absolute_ones_count (built_rank_index bits n ! (lo + 1))) > k));
       Some lo
     }) = (if dbg \<and> (lo \<noteq> select0_spec bits n k div 512
                      \<or> (select0_spec bits n k div 512 + 1 = 8388608 \<and> rank1_spec bits n = 0))
           then None else Some lo)"
proof -
  let ?R = "built_rank_index bits n"
  let ?A = "StorageSize n"
  let ?p = "select0_spec bits n k"
  let ?B = "?p div 512"
  let ?ones = "rank1_spec bits n"
  have n: "n < 4294967296" and pz: "padding_zero bits n"
    using bv by (simp_all add: bit_vector_def)
  have p: "?p < n" by (rule select0_spec_props(1) [OF k])
  have B: "?B + 1 < length ?R" by (rule zeros_block_bound [OF k])
  have len: "length ?R = (n + 511) div 512 + 1"
    by (simp add: built_rank_index_length blocks_eq)
  have nb: "(n + 511) div 512 \<le> 8388608" by (rule blocks_le [OF n])
  have lo_len: "lo < length ?R" "lo + 1 < length ?R" using lo B by simp_all
  have lo23: "lo < 8388608" using lo B len nb by simp
  have c1: "u32_sub (u32 (lo * 512)) (absolute_ones_count (?R ! lo)) \<le> k"
  proof -
    have "\<not> k < u32_sub (u32 (512 * lo)) (absolute_ones_count (?R ! lo))"
      unfolding built_zeros_gt(2) [OF bv k lo_len(1) lo23] using lo by simp
    then show ?thesis by (simp add: mult.commute)
  qed
  have ones_lt: "?ones \<le> n" by (rule rank1_spec_le)
  have c2: "(if u32 ((lo + 1) * 512) \<le> n
            then lo + 1 < length ?R \<and>
                   k < u32_sub (u32 ((lo + 1) * 512)) (absolute_ones_count (?R ! (lo + 1)))
            else lo + 1 < length ?R \<and> k < u64_sub n (absolute_ones_count (?R ! (lo + 1))))
        \<longleftrightarrow> lo = ?B \<and> \<not> (?B + 1 = 8388608 \<and> ?ones = 0)"
  proof (cases "lo + 1 < 8388608")
    case small: True
    then have u: "u32 ((lo + 1) * 512) = (lo + 1) * 512" by simp
    show ?thesis
    proof (cases "(lo + 1) * 512 \<le> n")
      case True
      have "(k < u32_sub (u32 (512 * (lo + 1))) (absolute_ones_count (?R ! (lo + 1))))
              \<longleftrightarrow> ?B < lo + 1"
        by (rule built_zeros_gt(2) [OF bv k lo_len(2) small])
      then have "(k < u32_sub (u32 ((lo + 1) * 512)) (absolute_ones_count (?R ! (lo + 1))))
              \<longleftrightarrow> lo = ?B"
        using lo by (auto simp add: mult.commute)
      then show ?thesis
        using True small lo_len(2) unfolding u by auto
    next
      case False
      then have "?p < 512 * (lo + 1)" using p by simp
      then have "?B < lo + 1" by (simp only: div512_less_iff)
      with lo have eq: "lo = ?B" by simp
      have "n < 64 * (8 * (lo + 1))" using False by simp
      then have "?A \<le> 8 * (lo + 1)" by (rule word_index_cases(2))
      then have "cum bits ?A (8 * (lo + 1)) = ?ones" by (rule cum_at_end [OF pz])
      moreover have "lo + 1 \<le> (?A + 7) div 8"
        using lo_len(2) by (simp add: built_rank_index_length)
      ultimately have "absolute_ones_count (?R ! (lo + 1)) = ?ones"
        by (simp only: built_absolute [OF bv])
      then show ?thesis
        using False small lo_len(2) k ones_lt n eq unfolding u by auto
    qed
  next
    case False
    with lo_len(2) len nb have l: "lo + 1 = 8388608" and nbe: "(n + 511) div 512 = 8388608"
      by simp_all
    have eq: "lo = ?B" using l B len nbe lo by simp
    have u: "u32 ((lo + 1) * 512) = 0" unfolding l by (simp add: u32_def)
    have "lo + 1 = (?A + 7) div 8" unfolding blocks_eq l nbe ..
    then have "?R ! (lo + 1) = set_absolute_ones_count default_entry ?ones"
      by (simp only: built_rank_index_nth(2))
    then have a: "absolute_ones_count (?R ! (lo + 1)) = ?ones"
      using ones_lt n by (simp add: terminator_absolute)
    have "k < u32_sub 0 ?ones \<longleftrightarrow> ?ones \<noteq> 0"
    proof (cases "?ones = 0")
      case True
      then show ?thesis by (simp add: u32_sub_def)
    next
      case False
      then have "(- int ?ones) mod 4294967296 = 4294967296 - int ?ones"
        using ones_lt n by (simp add: zmod_zminus1_eq_if)
      then have "u32_sub 0 ?ones = nat (4294967296 - int ?ones)"
        by (simp add: u32_sub_def)
      also have "\<dots> = 4294967296 - ?ones"
        by arith
      finally show ?thesis using False k n by simp
    qed
    then show ?thesis
      using lo_len(2) eq l unfolding u a by auto
  qed
  show ?thesis
  proof (cases dbg)
    case False
    then show ?thesis by simp
  next
    case True
    show ?thesis
      unfolding DFST_CHECK_if c2 using True c1 lo_len(1)
      by (auto simp add: DFST_CHECK_def)
  qed
qed

text \<open>\<open>FindInvertedRankIndexEntry\<close> on a built index, for the \<open>k\<close>-th clear bit.\<close>

lemma FindInverted_built:
  fixes e0 :: bool
  assumes bv: "bit_vector bits n" and k: "k < n - rank1_spec bits n"
  defines "L \<equiv> (if e0 \<and> 4294967296 \<le> built_select_0 bits n ! (k div 512 + 1) + 511
                 then built_select_0 bits n ! (k div 512) div 512
                 else select0_spec bits n k div 512)"
  shows "FindInvertedRankIndexEntry dbg (built_index bits n e0 e1) k =
     (if dbg \<and> (L \<noteq> select0_spec bits n k div 512
                \<or> (select0_spec bits n k div 512 + 1 = 8388608 \<and> rank1_spec bits n = 0))
      then None else Some L)"
    and "L \<le> select0_spec bits n k div 512"
proof -
  let ?R = "built_rank_index bits n"
  let ?S = "built_select_0 bits n"
  let ?p = "select0_spec bits n k"
  let ?B = "?p div 512"
  let ?lo = "built_select_0 bits n ! (k div 512)"
  let ?hi = "built_select_0 bits n ! (k div 512 + 1)"
  let ?nb = "(n + 511) div 512"
  have n: "n < 4294967296"
    using bv by (simp add: bit_vector_def)
  have ones_le: "rank1_spec bits n \<le> n" by (rule rank1_spec_le)
  have k32: "k < 4294967296"
    using k n by simp
  have ne: "?R \<noteq> []"
    by (simp add: built_rank_index_def)
  have tot: "absolute_ones_count (last ?R) = rank1_spec bits n"
    using GetOnesCount_built [OF bv, of e0 e1] ne by (simp add: GetOnesCount_def)
  have c0: "DFST_CHECK dbg (?R \<noteq> [] \<and> k < u64_sub n (absolute_ones_count (last ?R))) = Some ()"
    using k n ones_le by (simp add: ne tot)
  have len: "length ?R = ?nb + 1"
    by (simp add: built_rank_index_length blocks_eq)
  have nb: "?nb \<le> 8388608" by (rule blocks_le [OF n])
  have B: "?B < ?nb"
    using zeros_block_bound [OF k] len by simp
  have test: "\<And>j. j < ?nb \<Longrightarrow>
      (k < u32_sub (u32 (512 * j)) (absolute_ones_count (?R ! j))) \<longleftrightarrow> ?B < j"
    by (rule built_zeros_gt(2) [OF bv k]) (use len nb in simp_all)
  have H: "?nb \<le> length ?R" using len by simp
  have LP: "FindInverted_loop ?R k lo hi = Some ?B" if "lo \<le> ?B" "?B < hi" "hi \<le> ?nb" for lo hi
  proof (rule FindInverted_loop_built [where H = ?nb])
    show "\<And>j. j < ?nb \<Longrightarrow>
      (k < u32_sub (u32 (512 * j)) (absolute_ones_count (?R ! j))) \<longleftrightarrow> ?B < j"
      by (rule test)
  qed (use H that in simp_all)
  note a = built_select_0_around [OF k]
  have lo_le: "?lo div 512 \<le> ?B"
    using a(3) by (rule div_le_mono)
  show LB: "L \<le> ?B"
    unfolding L_def using lo_le by simp
  note chk = FindInverted_checks [OF bv k LB, of dbg]
  show "FindInvertedRankIndexEntry dbg (built_index bits n e0 e1) k =
     (if dbg \<and> (L \<noteq> ?B \<or> (?B + 1 = 8388608 \<and> rank1_spec bits n = 0))
      then None else Some L)"
  proof (cases e0)
    case False
    have L: "L = ?B" unfolding L_def using False by simp
    have hh: "u32 ((n + 512 - 1) div 512) = ?nb"
      using nb by simp
    have c_hi: "DFST_CHECK dbg (?nb < length ?R) = Some ()"
      using len by simp
    have lp: "FindInverted_loop ?R k 0 ?nb = Some L"
      unfolding L by (rule LP) (use B in simp_all)
    show ?thesis
      unfolding FindInvertedRankIndexEntry_def built_index_sel
      apply (simp only: False if_False if_True simp_thms c0 bind.bind_lunit prod.case hh c_hi lp)
      apply (rule chk)
      done
  next
    case True
    have Sne: "(?S = []) = False"
      using a(1) by auto
    have si: "u32 (k div 512) = k div 512"
      using k32 by simp
    have c1: "DFST_CHECK dbg (k div 512 + 1 < length ?S) = Some ()"
      using a(1) by simp
    have v1: "vec_at ?S (k div 512) = Some ?lo"
      using a(1) by (simp add: vec_at_def)
    have v2: "vec_at ?S (k div 512 + 1) = Some ?hi"
      using a(1) by (simp add: vec_at_def)
    have hi_n: "?hi < 4294967296"
      using a(5) n by simp
    let ?E = "u32 (?hi + 512 - 1) div 512"
    have E: "?E \<le> ?nb \<and> FindInverted_loop ?R k (?lo div 512) ?E = Some L"
    proof (cases "4294967296 \<le> ?hi + 511")
      case wrap: True
      then have L: "L = ?lo div 512" unfolding L_def using True by simp
      from wrap have "u32 (?hi + 512 - 1) = ?hi + 511 - 4294967296"
        using hi_n by (simp add: u32_def mod_if)
      then have e: "?E = 0"
        using hi_n by simp
      show ?thesis
        unfolding e L by (simp add: FindInverted_loop_empty)
    next
      case nowrap: False
      then have L: "L = ?B" unfolding L_def by simp
      from nowrap have u: "u32 (?hi + 512 - 1) = ?hi + 511" by simp
      let ?e = "(?hi + 511) div 512"
      have "?p < 512 * ?e"
        using a(4) ceil512_bounds(1) [of ?hi] by simp
      then have e1: "?B < ?e"
        by (simp only: div512_less_iff)
      have e2: "?e \<le> ?nb"
        using a(5) by (intro div_le_mono) simp
      show ?thesis
        unfolding u L using e2 LP [OF lo_le e1 e2] by (rule conjI)
    qed
    then have c_hi: "DFST_CHECK dbg (?E < length ?R) = Some ()"
      using len by simp
    from E have lp: "FindInverted_loop ?R k (?lo div 512) ?E = Some L" by simp
    show ?thesis
      unfolding FindInvertedRankIndexEntry_def built_index_sel
      apply (simp only: True if_False if_True simp_thms c0 bind.bind_lunit prod.case Sne Let_def
          si c1 v1 v2 c_hi lp)
      apply (rule chk)
      done
  qed
qed

lemma Select0_threshold:
  assumes v0: "64 * (8 * b) - cum bits A (8 * b) \<le> k"
    and th: "\<And>j. 64 * j - cum bits A j \<le> k \<longleftrightarrow> 64 * j \<le> p"
    and t: "t = 64 * i" "i \<le> 8"
  shows "(k - (64 * (8 * b) - cum bits A (8 * b))
            < u32_sub t (cum bits A (8 * b + i) - cum bits A (8 * b)))
          \<longleftrightarrow> p < 512 * b + 64 * i"
    and "k - (64 * (8 * b) - cum bits A (8 * b))
           - u32_sub t (cum bits A (8 * b + i) - cum bits A (8 * b))
         = k - (64 * (8 * b + i) - cum bits A (8 * b + i))"
proof -
  define c0 where "c0 = cum bits A (8 * b)"
  define ci where "ci = cum bits A (8 * b + i)"
  define a where "a = 64 * (8 * b)"
  define at where "at = 64 * (8 * b + i)"
  have m: "c0 \<le> ci"
    unfolding c0_def ci_def by (rule cum_mono) simp
  have s: "ci \<le> c0 + t"
    unfolding c0_def ci_def t(1) by (rule cum_add_le)
  have z: "c0 \<le> a"
    unfolding c0_def a_def by (rule cum_le_64)
  have A: "at = a + t"
    unfolding at_def a_def t(1) by simp
  have v: "a - c0 \<le> k"
    using v0 unfolding a_def c0_def .
  have "ci - c0 \<le> t" using s by simp
  moreover have "t < 2 ^ 32" using t by simp
  ultimately have U: "u32_sub t (ci - c0) = t - (ci - c0)"
    by (rule u32_sub_id)
  have th': "at - ci \<le> k \<longleftrightarrow> at \<le> p"
    unfolding at_def ci_def by (rule th)
  have pe: "at \<le> p \<longleftrightarrow> \<not> p < 512 * b + 64 * i"
    unfolding at_def by auto
  have R1: "(k - (a - c0) < u32_sub t (ci - c0)) \<longleftrightarrow> p < 512 * b + 64 * i"
  proof (cases "p < 512 * b + 64 * i")
    case True
    then have "k < at - ci" using th' pe by simp
    then have "k - (a - c0) < t - (ci - c0)" using m s z v A by arith
    with True show ?thesis unfolding U by simp
  next
    case False
    then have "at - ci \<le> k" using th' pe by simp
    then have "\<not> k - (a - c0) < t - (ci - c0)" using m s z v A by arith
    with False show ?thesis unfolding U by simp
  qed
  then show "(k - (64 * (8 * b) - cum bits A (8 * b))
            < u32_sub t (cum bits A (8 * b + i) - cum bits A (8 * b)))
          \<longleftrightarrow> p < 512 * b + 64 * i"
    unfolding a_def c0_def ci_def .
  have "k - (a - c0) - (t - (ci - c0)) = k - (at - ci)"
    using m s z v A by arith
  then have "k - (a - c0) - u32_sub t (ci - c0) = k - (at - ci)"
    unfolding U .
  then show "k - (64 * (8 * b) - cum bits A (8 * b))
           - u32_sub t (cum bits A (8 * b + i) - cum bits A (8 * b))
         = k - (64 * (8 * b + i) - cum bits A (8 * b + i))"
    unfolding a_def c0_def ci_def at_def .
qed

lemma Select0_descend_built:
  assumes v0: "64 * (8 * b) - cum bits A (8 * b) \<le> k"
    and th: "\<And>j. 64 * j - cum bits A j \<le> k \<longleftrightarrow> 64 * j \<le> p"
  shows "\<exists>i<8. Select0_descend (rank_entry bits A b) (8 * b)
                 (k - (64 * (8 * b) - cum bits A (8 * b)))
            = (8 * b + i, k - (64 * (8 * b + i) - cum bits A (8 * b + i)))
          \<and> 64 * (8 * b + i) \<le> p \<and> (i < 7 \<longrightarrow> p < 64 * (8 * b + i + 1))"
proof -
  let ?v0 = "64 * (8 * b) - cum bits A (8 * b)"
  have t: "4 * 64 = 64 * (4 :: nat)" "2 * 64 = 64 * (2 :: nat)" "64 = 64 * (1 :: nat)"
    "3 * 64 = 64 * (3 :: nat)" "6 * 64 = 64 * (6 :: nat)" "5 * 64 = 64 * (5 :: nat)"
    "7 * 64 = 64 * (7 :: nat)" "(4 :: nat) \<le> 8" "(2 :: nat) \<le> 8" "(1 :: nat) \<le> 8"
    "(3 :: nat) \<le> 8" "(6 :: nat) \<le> 8" "(5 :: nat) \<le> 8" "(7 :: nat) \<le> 8"
    by simp_all
  note T = Select0_threshold [OF v0 th]
  note r = T [OF t(1) t(8)] T [OF t(2) t(9)] T [OF t(3) t(10)] T [OF t(4) t(11)]
    T [OF t(5) t(12)] T [OF t(6) t(13)] T [OF t(7) t(14)]
  have D: "Select0_descend (rank_entry bits A b) (8 * b) (k - ?v0) =
     (if p < 512 * b + 64 * 4 then
        if p < 512 * b + 64 * 2 then
          if p < 512 * b + 64 * 1 then (8 * b, k - ?v0)
          else (8 * b + 1, k - (64 * (8 * b + 1) - cum bits A (8 * b + 1)))
        else if p < 512 * b + 64 * 3 then (8 * b + 2, k - (64 * (8 * b + 2) - cum bits A (8 * b + 2)))
        else (8 * b + 3, k - (64 * (8 * b + 3) - cum bits A (8 * b + 3)))
      else if p < 512 * b + 64 * 6 then
        if p < 512 * b + 64 * 5 then (8 * b + 4, k - (64 * (8 * b + 4) - cum bits A (8 * b + 4)))
        else (8 * b + 5, k - (64 * (8 * b + 5) - cum bits A (8 * b + 5)))
      else if p < 512 * b + 64 * 7 then (8 * b + 6, k - (64 * (8 * b + 6) - cum bits A (8 * b + 6)))
      else (8 * b + 7, k - (64 * (8 * b + 7) - cum bits A (8 * b + 7))))"
    by (simp only: Select0_descend_def rank_entry_getters r)
  have q0: "64 * (8 * b) \<le> p"
    using th [of "8 * b"] v0 by simp
  consider "p < 512 * b + 64" | "512 * b + 64 \<le> p" "p < 512 * b + 128"
    | "512 * b + 128 \<le> p" "p < 512 * b + 192" | "512 * b + 192 \<le> p" "p < 512 * b + 256"
    | "512 * b + 256 \<le> p" "p < 512 * b + 320" | "512 * b + 320 \<le> p" "p < 512 * b + 384"
    | "512 * b + 384 \<le> p" "p < 512 * b + 448" | "512 * b + 448 \<le> p"
    by linarith
  then show ?thesis
  proof cases
    case 1 then show ?thesis using q0 unfolding D by (intro exI [of _ 0]) simp
  next
    case 2 then show ?thesis unfolding D by (intro exI [of _ 1]) simp
  next
    case 3 then show ?thesis unfolding D by (intro exI [of _ 2]) simp
  next
    case 4 then show ?thesis unfolding D by (intro exI [of _ 3]) simp
  next
    case 5 then show ?thesis unfolding D by (intro exI [of _ 4]) simp
  next
    case 6 then show ?thesis unfolding D by (intro exI [of _ 5]) simp
  next
    case 7 then show ?thesis unfolding D by (intro exI [of _ 6]) simp
  next
    case 8 then show ?thesis unfolding D by (intro exI [of _ 7]) simp
  qed
qed

lemma Some_eq_if_None: "Some y = (if c then None else Some x) \<Longrightarrow> y = x"
  by (cases c) simp_all

lemma zeros_before_word_count:
  assumes "j \<le> StorageSize n"
  shows "count_upto (\<lambda>i. \<not> bit_at bits i) (64 * j) = 64 * j - cum bits (StorageSize n) j"
  using assms by (simp add: count_upto_compl cum_count)

text \<open>The steps of \<open>Select0\<close> and \<open>Select0s\<close> after the search, in block \<open>b\<close>.\<close>

lemma Select0_in_block:
  assumes bv: "bit_vector bits n" and k: "k < n - rank1_spec bits n"
  defines "p \<equiv> select0_spec bits n k"
  assumes b: "512 * b \<le> p"
  shows "vec_at (built_rank_index bits n) b = Some (rank_entry bits (StorageSize n) b)"
    and "u32 (b * 8) = 8 * b"
    and "u32_sub (u32 (64 * (8 * b))) (absolute_ones_count (rank_entry bits (StorageSize n) b))
           = 64 * (8 * b) - cum bits (StorageSize n) (8 * b)"
    and "u32_sub k (64 * (8 * b) - cum bits (StorageSize n) (8 * b))
           = k - (64 * (8 * b) - cum bits (StorageSize n) (8 * b))"
    and "p < 512 * (b + 1) \<Longrightarrow>
         Select0_descend (rank_entry bits (StorageSize n) b) (8 * b)
           (k - (64 * (8 * b) - cum bits (StorageSize n) (8 * b)))
         = (p div 64, k - (64 * (p div 64) - cum bits (StorageSize n) (p div 64)))"
    and "vec_at bits (p div 64) = Some (bits ! (p div 64))"
    and "nth_bit (NOT (bits ! (p div 64)))
           (k - (64 * (p div 64) - cum bits (StorageSize n) (p div 64))) = Some (p mod 64)"
    and "512 * (b + 1) \<le> p \<Longrightarrow>
         \<exists>w r. Select0_descend (rank_entry bits (StorageSize n) b) (8 * b)
                  (k - (64 * (8 * b) - cum bits (StorageSize n) (8 * b))) = (w, r)
               \<and> vec_at bits w = Some (bits ! w) \<and> nth_bit (NOT (bits ! w)) r = None"
proof -
  let ?A = "StorageSize n"
  let ?P = "\<lambda>i. \<not> bit_at bits i"
  note pp = select0_spec_props [OF k, folded p_def]
  have n: "n < 4294967296" and ss: "?A \<le> length bits"
    using bv by (simp_all add: bit_vector_def)
  have th: "\<And>j. 64 * j - cum bits ?A j \<le> k \<longleftrightarrow> 64 * j \<le> p"
    unfolding p_def by (rule zeros_threshold [OF bv k])
  have bn: "512 * b < n" using b pp(1) by simp
  then have "b < (n + 511) div 512"
    using div512_less_ceil [of "512 * b" n] by simp
  then have bb: "b < (?A + 7) div 8" by (simp only: blocks_eq)
  show "vec_at (built_rank_index bits n) b = Some (rank_entry bits ?A b)"
    using bb by (simp add: vec_at_def built_rank_index_length built_rank_index_nth(1))
  show "u32 (b * 8) = 8 * b"
    using bn n by simp
  have c: "cum bits ?A (8 * b) \<le> 64 * (8 * b)" by (rule cum_le_64)
  show "u32_sub (u32 (64 * (8 * b))) (absolute_ones_count (rank_entry bits ?A b))
           = 64 * (8 * b) - cum bits ?A (8 * b)"
    using c bn n cum_less_2p32 [OF bv, of "8 * b"] by (simp add: rank_entry_absolute)
  have v0: "64 * (8 * b) - cum bits ?A (8 * b) \<le> k"
    unfolding th using b by simp
  show "u32_sub k (64 * (8 * b) - cum bits ?A (8 * b))
           = k - (64 * (8 * b) - cum bits ?A (8 * b))"
    using v0 k n by simp
  from Select0_descend_built [of b bits ?A k p, OF v0 th]
  obtain i where i: "i < 8"
    and d: "Select0_descend (rank_entry bits ?A b) (8 * b) (k - (64 * (8 * b) - cum bits ?A (8 * b)))
              = (8 * b + i, k - (64 * (8 * b + i) - cum bits ?A (8 * b + i)))"
    and lo: "64 * (8 * b + i) \<le> p" and hi: "i < 7 \<longrightarrow> p < 64 * (8 * b + i + 1)"
    by blast
  show "Select0_descend (rank_entry bits ?A b) (8 * b)
           (k - (64 * (8 * b) - cum bits ?A (8 * b)))
         = (p div 64, k - (64 * (p div 64) - cum bits ?A (p div 64)))"
    if "p < 512 * (b + 1)"
  proof -
    have "p < 64 * (8 * b + i + 1)"
    proof (cases "i < 7")
      case True
      with hi show ?thesis by simp
    next
      case False
      with i have "i = 7" by simp
      then show ?thesis using that by simp
    qed
    with lo have w: "8 * b + i = p div 64" by simp
    show ?thesis using d unfolding w .
  qed
  have "64 * (p div 64) < n" using pp(1) by simp
  then have wA: "p div 64 < ?A" by (rule word_below_size)
  show "vec_at bits (p div 64) = Some (bits ! (p div 64))"
    using wA ss by (simp add: vec_at_def)
  have zw: "count_upto ?P (64 * (p div 64)) = 64 * (p div 64) - cum bits ?A (p div 64)"
    by (rule zeros_before_word_count) (use wA in simp)
  have "count_upto ?P (64 * (p div 64) + p mod 64)
          = count_upto ?P (64 * (p div 64))
            + (p mod 64 - count_upto (bit (bits ! (p div 64))) (p mod 64))"
    by (rule count_not_word) simp
  then have "p mod 64 - count_upto (bit (bits ! (p div 64))) (p mod 64)
               = k - (64 * (p div 64) - cum bits ?A (p div 64))"
    using pp(3) zw by simp
  then have "count_upto (bit (NOT (bits ! (p div 64)))) (p mod 64)
               = k - (64 * (p div 64) - cum bits ?A (p div 64))"
    by (simp add: count_NOT_word)
  moreover have "bit (NOT (bits ! (p div 64))) (p mod 64)"
    using pp(2) by (simp add: bit_at_def bit_not_iff)
  ultimately show "nth_bit (NOT (bits ! (p div 64)))
           (k - (64 * (p div 64) - cum bits ?A (p div 64))) = Some (p mod 64)"
    by (intro nth_bit_at) simp_all
  show "\<exists>w r. Select0_descend (rank_entry bits ?A b) (8 * b)
                  (k - (64 * (8 * b) - cum bits ?A (8 * b))) = (w, r)
               \<and> vec_at bits w = Some (bits ! w) \<and> nth_bit (NOT (bits ! w)) r = None"
    if far: "512 * (b + 1) \<le> p"
  proof -
    have "i = 7"
    proof (rule ccontr)
      assume "i \<noteq> 7"
      with i have "i < 7" by simp
      with hi far show False by simp
    qed
    then have d7: "Select0_descend (rank_entry bits ?A b) (8 * b)
        (k - (64 * (8 * b) - cum bits ?A (8 * b)))
        = (8 * b + 7, k - (64 * (8 * b + 7) - cum bits ?A (8 * b + 7)))"
      using d by simp
    have "64 * (8 * b + 7) < n" using far pp(1) by simp
    then have w7: "8 * b + 7 < ?A" by (rule word_below_size)
    then have v7: "vec_at bits (8 * b + 7) = Some (bits ! (8 * b + 7))"
      using ss by (simp add: vec_at_def)
    define c7 where "c7 = cum bits ?A (8 * b + 7)"
    define pc where "pc = builtin_popcountll (bits ! (8 * b + 7))"
    have c8: "cum bits ?A (8 * b + 7 + 1) = c7 + pc"
      unfolding c7_def pc_def using w7 by (simp only: cum_plus1 eff_word_def if_True)
    have "64 * (8 * b + 7 + 1) - cum bits ?A (8 * b + 7 + 1) \<le> k"
      unfolding th using far by simp
    then have "64 * (8 * b + 7) + 64 - (c7 + pc) \<le> k"
      unfolding c8 by simp
    moreover have "c7 \<le> 64 * (8 * b + 7)"
      unfolding c7_def by (rule cum_le_64)
    moreover have "pc \<le> 64"
      unfolding pc_def by (rule popcountll_le)
    ultimately have "64 - pc \<le> k - (64 * (8 * b + 7) - c7)"
      by arith
    then have "builtin_popcountll (NOT (bits ! (8 * b + 7)))
                 \<le> k - (64 * (8 * b + 7) - cum bits ?A (8 * b + 7))"
      unfolding c7_def pc_def by (simp only: popcountll_NOT)
    then have "nth_bit (NOT (bits ! (8 * b + 7)))
                 (k - (64 * (8 * b + 7) - cum bits ?A (8 * b + 7))) = None"
      by (rule nth_bit_None)
    with d7 v7 show ?thesis by blast
  qed
qed

lemma Select0_built:
  assumes bv: "bit_vector bits n" and k: "k < n - rank1_spec bits n"
  shows "Select0 dbg (built_index bits n e0 e1) k =
     (if FindInvertedRankIndexEntry dbg (built_index bits n e0 e1) k
           = Some (select0_spec bits n k div 512)
      then Some (select0_spec bits n k) else None)"
proof -
  let ?A = "StorageSize n"
  let ?p = "select0_spec bits n k"
  let ?idx = "built_index bits n e0 e1"
  have n: "n < 4294967296"
    using bv by (simp add: bit_vector_def)
  have p: "?p < n" by (rule select0_spec_props(1) [OF k])
  have G: "GetOnesCount ?idx = Some (rank1_spec bits n)"
    by (rule GetOnesCount_built [OF bv])
  have nk: "(u32_sub n (rank1_spec bits n) \<le> k) = False"
    using k n rank1_spec_le [of bits n] by simp
  have r: "u32 (64 * (?p div 64) + ?p mod 64) = ?p"
    using p n by simp
  show ?thesis
  proof (cases "FindInvertedRankIndexEntry dbg ?idx k")
    case None
    show ?thesis
      unfolding Select0_def Bits_def built_index_sel
      by (simp only: G nk None bind.bind_lunit bind.bind_lzero if_False Let_def option.simps)
  next
    case (Some b)
    let ?L = "(if e0 \<and> 4294967296 \<le> built_select_0 bits n ! (k div 512 + 1) + 511
                 then built_select_0 bits n ! (k div 512) div 512
                 else select0_spec bits n k div 512)"
    have LB: "?L \<le> ?p div 512"
      by (rule FindInverted_built(2) [OF bv k])
    have F: "FindInvertedRankIndexEntry dbg ?idx k =
       (if dbg \<and> (?L \<noteq> ?p div 512 \<or> (?p div 512 + 1 = 8388608 \<and> rank1_spec bits n = 0))
        then None else Some ?L)"
      by (rule FindInverted_built(1) [OF bv k])
    have "b = ?L"
      by (rule Some_eq_if_None) (rule F [unfolded Some])
    with LB have "b \<le> ?p div 512"
      by simp
    then have b: "512 * b \<le> ?p"
      using div512_bounds(1) [of ?p] by (simp add: less_eq_div_iff_mult_less_eq mult.commute)
    note I = Select0_in_block [OF bv k b]
    show ?thesis
    proof (cases "b = ?p div 512")
      case True
      then have "?p < 512 * (b + 1)" using div512_bounds(3) [of ?p] by simp
      note d = I(5) [OF this]
      have rhs: "(Some b = Some (?p div 512)) = True" using True by simp
      show ?thesis
        unfolding Select0_def Bits_def built_index_sel
        by (simp only: G nk Some rhs bind.bind_lunit if_False if_True Let_def I(1) I(2) I(3) I(4)
            d prod.case I(6) I(7) r)
    next
      case False
      with \<open>b \<le> ?p div 512\<close> have "b + 1 \<le> ?p div 512" by simp
      then have "512 * (b + 1) \<le> ?p"
        by (simp add: less_eq_div_iff_mult_less_eq mult.commute)
      from I(8) [OF this] obtain w r' where
        d: "Select0_descend (rank_entry bits ?A b) (8 * b)
              (k - (64 * (8 * b) - cum bits ?A (8 * b))) = (w, r')"
        and v: "vec_at bits w = Some (bits ! w)" and z: "nth_bit (NOT (bits ! w)) r' = None"
        by blast
      have rhs: "(Some b = Some (?p div 512)) = False" using False by simp
      show ?thesis
        unfolding Select0_def Bits_def built_index_sel
        by (simp only: G nk Some rhs bind.bind_lunit bind.bind_lzero if_False Let_def
            I(1) I(2) I(3) I(4) d prod.case v z)
    qed
  qed
qed

lemma count_upto_zero_none:
  assumes "count_upto P m = 0" "i < m"
  shows "\<not> P i"
proof
  assume "P i"
  from count_upto_strict [of P, OF this assms(2)] assms(1) show False by simp
qed

lemma count_upto_none:
  assumes "\<And>i. i < m \<Longrightarrow> \<not> P i"
  shows "count_upto P m = 0"
proof -
  have "count_upto P m = count_upto (\<lambda>_. False) m"
    by (rule count_upto_cong) (use assms in simp)
  then show ?thesis by (simp add: count_upto_def)
qed

lemma popcountll_pos:
  assumes "w \<noteq> 0"
  shows "0 < builtin_popcountll w"
proof -
  have "\<exists>i<64. bit w i"
  proof (rule ccontr)
    assume "\<not> (\<exists>i<64. bit w i)"
    then have "w = 0" by (intro bit_word_eqI) simp
    with assms show False by simp
  qed
  then obtain i where i: "i < 64" "bit w i" by blast
  from count_upto_strict [of "bit w", OF i(2) i(1)] show ?thesis
    by (simp add: set_bits64_count)
qed

text \<open>\<open>__builtin_ctzll\<close> of a non-zero word is its lowest set bit.\<close>

lemma builtin_ctzll_least:
  assumes "w \<noteq> 0"
  shows "\<exists>q. builtin_ctzll w = Some q \<and> q < 64 \<and> bit w q \<and> (\<forall>i<q. \<not> bit w i)"
proof -
  have pos: "0 < count_upto (bit w) 64"
    using popcountll_pos [OF assms] by (simp add: set_bits64_count)
  let ?q = "filter (bit w) [0..<64] ! 0"
  from nth_filter_upt [OF pos]
  have q: "?q < 64" "bit w ?q" "count_upto (bit w) ?q = 0" by simp_all
  have ne: "filter (bit w) [0..<64] \<noteq> []"
    using pos by (auto simp add: count_upto_def)
  have "builtin_ctzll w = Some ?q"
    using assms ne by (simp add: builtin_ctzll_def set_bits64_def hd_conv_nth)
  moreover have "\<forall>i<?q. \<not> bit w i"
    using count_upto_zero_none [OF q(3)] by blast
  ultimately show ?thesis using q by blast
qed

text \<open>The mask \<open>-(uint64_t{0x2} << nth)\<close> keeps the bits above \<open>nth\<close>.\<close>

lemma bit_mask_above:
  "bit (- push_bit m 2 :: 64 word) i \<longleftrightarrow> i < 64 \<and> m < i"
proof -
  have "(push_bit m 2 :: 64 word) = 2 ^ Suc m"
    by (simp add: push_bit_eq_mult)
  then have "- (push_bit m 2 :: 64 word) = NOT (mask (Suc m))"
    by (simp add: minus_eq_not_minus_1 mask_eq_exp_minus_1)
  then show ?thesis
    by (auto simp add: bit_not_iff bit_mask_iff)
qed

lemma div512_next:
  fixes k :: nat
  assumes "(k + 1) div 512 \<noteq> k div 512"
  shows "512 * ((k + 1) div 512) = k + 1"
  using assms by arith

lemma if_None_eq_Some: "(if c then None else Some x) = Some y \<Longrightarrow> \<not> c \<and> x = y"
  by (cases c) simp_all

lemma next_zero_in_word:
  assumes bv: "bit_vector bits n" and k1: "k + 1 < n - rank1_spec bits n"
  defines "p \<equiv> select0_spec bits n k"
  assumes M: "NOT (bits ! (p div 64)) AND - push_bit (p mod 64) 2 \<noteq> 0"
  shows "\<exists>q. builtin_ctzll (NOT (bits ! (p div 64)) AND - push_bit (p mod 64) 2) = Some q
            \<and> q < 64 \<and> select0_spec bits n (k + 1) = 64 * (p div 64) + q"
proof -
  let ?w = "bits ! (p div 64)"
  let ?m = "p mod 64"
  let ?M = "NOT ?w AND - push_bit ?m 2"
  let ?Q = "bit (NOT ?w)"
  let ?P = "\<lambda>i. \<not> bit_at bits i"
  have k: "k < n - rank1_spec bits n" using k1 by simp
  note pp = select0_spec_props [OF k, folded p_def]
  from builtin_ctzll_least [OF M] obtain q
    where ctz: "builtin_ctzll ?M = Some q" and q: "q < 64" and bq: "bit ?M q"
      and least: "\<forall>i<q. \<not> bit ?M i"
    by blast
  have bitM: "bit ?M i \<longleftrightarrow> ?Q i \<and> ?m < i" for i
    by (auto simp add: bit_and_iff bit_mask_above bit_not_iff)
  have Qq: "?Q q" and mq: "?m < q" using bq bitM by simp_all
  have between: "\<not> ?Q i" if "?m < i" "i < q" for i
    using least [rule_format, OF that(2)] bitM [of i] that(1) by simp
  have Qm: "?Q ?m"
    using pp(2) by (simp add: bit_at_def bit_not_iff)
  have "count_upto ?Q (Suc ?m + (q - Suc ?m))
          = count_upto ?Q (Suc ?m) + count_upto (\<lambda>i. ?Q (Suc ?m + i)) (q - Suc ?m)"
    by (rule count_upto_add)
  moreover have "count_upto (\<lambda>i. ?Q (Suc ?m + i)) (q - Suc ?m) = 0"
    by (rule count_upto_none) (rule between, simp_all)
  moreover have "Suc ?m + (q - Suc ?m) = q" using mq by simp
  moreover have "count_upto ?Q (Suc ?m) = count_upto ?Q ?m + 1"
    using Qm by (simp add: count_upto_Suc)
  ultimately have cQ: "count_upto ?Q q = count_upto ?Q ?m + 1"
    by simp
  have cq: "count_upto ?P (64 * (p div 64) + q)
              = count_upto ?P (64 * (p div 64)) + count_upto ?Q q"
    using count_not_word [of q bits "p div 64"] count_NOT_word [of q ?w] q by simp
  have cm: "count_upto ?P (64 * (p div 64) + ?m)
              = count_upto ?P (64 * (p div 64)) + count_upto ?Q ?m"
    using count_not_word [of ?m bits "p div 64"] count_NOT_word [of ?m ?w] by simp
  have "64 * (p div 64) + ?m = p" by simp
  then have "count_upto ?P (64 * (p div 64)) + count_upto ?Q ?m = k"
    using cm pp(3) by simp
  then have c: "count_upto ?P (64 * (p div 64) + q) = k + 1"
    using cq cQ by simp
  have zeros: "count_upto ?P n = n - rank1_spec bits n"
    by (simp add: count_upto_compl rank1_spec_count)
  have lt: "64 * (p div 64) + q < n"
  proof (rule ccontr)
    assume "\<not> 64 * (p div 64) + q < n"
    then have "n \<le> 64 * (p div 64) + q" by simp
    then have "count_upto ?P n \<le> count_upto ?P (64 * (p div 64) + q)"
      by (rule count_upto_mono)
    with c zeros k1 show False by simp
  qed
  have nb: "\<not> bit_at bits (64 * (p div 64) + q)"
    using Qq q by (simp add: bit_at_word bit_not_iff)
  have "select0_spec bits n (k + 1) = 64 * (p div 64) + q"
    using lt nb c by (rule select0_spec_eq)
  with ctz q show ?thesis by blast
qed

lemma FindInverted_next:
  assumes bv: "bit_vector bits n" and k1: "k + 1 < n - rank1_spec bits n"
    and F: "FindInvertedRankIndexEntry dbg (built_index bits n e0 e1) k
              = Some (select0_spec bits n k div 512)"
    and same: "select0_spec bits n (k + 1) div 512 = select0_spec bits n k div 512"
  shows "FindInvertedRankIndexEntry dbg (built_index bits n e0 e1) (k + 1)
           = Some (select0_spec bits n (k + 1) div 512)"
proof -
  let ?S = "built_select_0 bits n"
  let ?B = "select0_spec bits n k div 512"
  let ?T = "?B + 1 = 8388608 \<and> rank1_spec bits n = 0"
  let ?W = "\<lambda>k. e0 \<and> 4294967296 \<le> ?S ! (k div 512 + 1) + 511"
  let ?L = "\<lambda>k. ?S ! (k div 512) div 512"
  have k: "k < n - rank1_spec bits n" using k1 by simp
  have "(if dbg \<and> ((if ?W k then ?L k else ?B) \<noteq> ?B \<or> ?T) then None
         else Some (if ?W k then ?L k else ?B)) = Some ?B"
    using FindInverted_built(1) [OF bv k, of dbg e0 e1] F by simp
  from if_None_eq_Some [OF this]
  have c: "\<not> (dbg \<and> ?T)" and L: "?W k \<Longrightarrow> ?L k = ?B"
    by (auto split: if_splits)
  have L': "?L (k + 1) = ?B" if W: "?W (k + 1)"
  proof (cases "(k + 1) div 512 = k div 512")
    case True
    with W have "?W k" by simp
    from L [OF this] True show ?thesis by simp
  next
    case False
    then have e: "512 * ((k + 1) div 512) = k + 1" by (rule div512_next)
    have "?S ! ((k + 1) div 512) = select0_spec bits n (512 * ((k + 1) div 512))"
      by (rule built_select_0_around(2) [OF k1])
    then show ?thesis unfolding e same [symmetric] by simp
  qed
  have "FindInvertedRankIndexEntry dbg (built_index bits n e0 e1) (k + 1)
     = (if dbg \<and> ((if ?W (k + 1) then ?L (k + 1) else ?B) \<noteq> ?B \<or> ?T) then None
         else Some (if ?W (k + 1) then ?L (k + 1) else ?B))"
    using FindInverted_built(1) [OF bv k1, of dbg e0 e1] unfolding same .
  also have "\<dots> = Some ?B"
    using c L' by auto
  finally show ?thesis unfolding same .
qed

text \<open>\<open>Select0s\<close> against two calls of \<open>Select0\<close>.\<close>

lemma Select0s_built:
  assumes bv: "bit_vector bits n"
  shows "Select0s dbg (built_index bits n e0 e1) k
           = Select0 dbg (built_index bits n e0 e1) k \<bind>
               (\<lambda>a. Select0 dbg (built_index bits n e0 e1) (k + 1) \<bind> (\<lambda>b. Some (a, b)))"
proof -
  let ?A = "StorageSize n"
  let ?idx = "built_index bits n e0 e1"
  let ?zeros = "n - rank1_spec bits n"
  let ?p = "select0_spec bits n k"
  have n: "n < 4294967296"
    using bv by (simp add: bit_vector_def)
  have G: "GetOnesCount ?idx = Some (rank1_spec bits n)"
    by (rule GetOnesCount_built [OF bv])
  have z: "u32_sub n (rank1_spec bits n) = ?zeros"
    using n rank1_spec_le [of bits n] by simp
  consider "?zeros \<le> k" | "k < ?zeros" "?zeros \<le> k + 1" | "k + 1 < ?zeros"
    by linarith
  then show ?thesis
  proof cases
    case 1
    then have c: "(?zeros \<le> k) = True" by simp
    have s0: "Select0 dbg ?idx k = Some n"
      by (rule Select0_exhausted [OF bv 1])
    have s1: "Select0 dbg ?idx (k + 1) = Some n"
      by (rule Select0_exhausted [OF bv]) (use 1 in simp)
    show ?thesis
      unfolding Select0s_def Bits_def built_index_sel
      by (simp only: G z c s0 s1 bind.bind_lunit Let_def if_True)
  next
    case 2
    then have c: "(?zeros \<le> k) = False" "(?zeros \<le> k + 1) = True" by simp_all
    have s1: "Select0 dbg ?idx (k + 1) = Some n"
      by (rule Select0_exhausted [OF bv 2(2)])
    show ?thesis
      unfolding Select0s_def Bits_def built_index_sel
      by (simp only: G z c s1 bind.bind_lunit Let_def if_True if_False)
  next
    case 3
    then have k: "k < ?zeros" by simp
    from 3 have c: "(?zeros \<le> k) = False" "(?zeros \<le> k + 1) = False" by simp_all
    have p: "?p < n" by (rule select0_spec_props(1) [OF k])
    have r: "u32 (64 * (?p div 64) + ?p mod 64) = ?p"
      using p n by simp
    note S0 = Select0_built [OF bv k, of dbg e0 e1]
    show ?thesis
    proof (cases "FindInvertedRankIndexEntry dbg ?idx k")
      case None
      then have s0: "Select0 dbg ?idx k = None"
        unfolding S0 by simp
      show ?thesis
        unfolding Select0s_def Bits_def built_index_sel
        by (simp only: G z c None s0 bind.bind_lunit bind.bind_lzero Let_def if_False)
    next
      case (Some b)
      let ?L = "(if e0 \<and> 4294967296 \<le> built_select_0 bits n ! (k div 512 + 1) + 511
                 then built_select_0 bits n ! (k div 512) div 512
                 else select0_spec bits n k div 512)"
      have LB: "?L \<le> ?p div 512"
        by (rule FindInverted_built(2) [OF bv k])
      have F: "FindInvertedRankIndexEntry dbg ?idx k =
         (if dbg \<and> (?L \<noteq> ?p div 512 \<or> (?p div 512 + 1 = 8388608 \<and> rank1_spec bits n = 0))
          then None else Some ?L)"
        by (rule FindInverted_built(1) [OF bv k])
      have "b = ?L"
        by (rule Some_eq_if_None) (rule F [unfolded Some])
      with LB have bB: "b \<le> ?p div 512"
        by simp
      then have b: "512 * b \<le> ?p"
        using div512_bounds(1) [of ?p] by (simp add: less_eq_div_iff_mult_less_eq mult.commute)
      note I = Select0_in_block [OF bv k b]
      show ?thesis
      proof (cases "b = ?p div 512")
        case False
        with bB have "b + 1 \<le> ?p div 512" by simp
        then have "512 * (b + 1) \<le> ?p"
          by (simp add: less_eq_div_iff_mult_less_eq mult.commute)
        from I(8) [OF this] obtain w r' where
          d: "Select0_descend (rank_entry bits ?A b) (8 * b)
                (k - (64 * (8 * b) - cum bits ?A (8 * b))) = (w, r')"
          and v: "vec_at bits w = Some (bits ! w)" and nz: "nth_bit (NOT (bits ! w)) r' = None"
          by blast
        have s0: "Select0 dbg ?idx k = None"
          unfolding S0 Some using False by simp
        show ?thesis
          unfolding Select0s_def Bits_def built_index_sel
          by (simp only: G z c Some s0 bind.bind_lunit bind.bind_lzero if_False Let_def
              I(1) I(2) I(3) I(4) d prod.case v nz)
      next
        case True
        then have "?p < 512 * (b + 1)" using div512_bounds(3) [of ?p] by simp
        note d = I(5) [OF this]
        have FB: "FindInvertedRankIndexEntry dbg ?idx k = Some (?p div 512)"
          unfolding Some True ..
        have s0: "Select0 dbg ?idx k = Some ?p"
          unfolding S0 FB by simp
        let ?M = "NOT (bits ! (?p div 64)) AND - push_bit (?p mod 64) 2"
        show ?thesis
        proof (cases "?M = 0")
          case M0: True
          have m: "(?M \<noteq> 0) = False" using M0 by simp
          show ?thesis
            unfolding Select0s_def Bits_def built_index_sel
            by (simp only: G z c Some s0 bind.bind_lunit if_False Let_def
                I(1) I(2) I(3) I(4) d prod.case I(6) I(7) r m)
        next
          case M1: False
          have m: "(?M \<noteq> 0) = True" using M1 by simp
          from next_zero_in_word [OF bv 3 M1] obtain q
            where ctz: "builtin_ctzll ?M = Some q" and q: "q < 64"
              and p2: "select0_spec bits n (k + 1) = 64 * (?p div 64) + q"
            by blast
          have "select0_spec bits n (k + 1) div 64 = ?p div 64"
            unfolding p2 using q by simp
          then have "select0_spec bits n (k + 1) div 64 div 8 = ?p div 64 div 8"
            by simp
          then have same: "select0_spec bits n (k + 1) div 512 = ?p div 512"
            by (simp add: div_mult2_eq [symmetric])
          have F1: "FindInvertedRankIndexEntry dbg ?idx (k + 1)
                      = Some (select0_spec bits n (k + 1) div 512)"
            by (rule FindInverted_next [OF bv 3 FB same])
          have s1: "Select0 dbg ?idx (k + 1) = Some (64 * (?p div 64) + q)"
            unfolding Select0_built [OF bv 3] F1 p2 by simp
          have "64 * (?p div 64) + q < n"
            using select0_spec_props(1) [OF 3] unfolding p2 .
          then have r2: "u32 (64 * (?p div 64) + q) = 64 * (?p div 64) + q"
            using n by simp
          show ?thesis
            unfolding Select0s_def Bits_def built_index_sel
            by (simp only: G z c Some s0 s1 bind.bind_lunit if_False if_True Let_def
                I(1) I(2) I(3) I(4) d prod.case I(6) I(7) r m ctz r2)
        qed
      qed
    qed
  qed
qed

section \<open>The rank index and the rank queries\<close>

text \<open>
  C3.  After \<open>BuildIndex\<close> over a bit vector of \<open>num_bits\<close> bits whose padding bits are zero,
  for every word index \<open>w\<close> from 0 to \<open>ArraySize\<close> inclusive, entry \<open>w div 8\<close> of the rank
  index exists and its \<open>absolute_ones_count()\<close> plus its \<open>relative_ones_count(w mod 8)\<close> is
  the number of set bits in positions \<open>[0, 64 * w)\<close>; the rank index has one entry per block
  and a terminator, whose \<open>absolute_ones_count()\<close> is the number of set bits of the vector.
\<close>

theorem BuildIndex_rank_index_invariant:
  assumes "bit_vector bits num_bits"
  shows "\<exists>idx. BuildIndex dbg bits num_bits e0 e1 = Some idx \<and>
           (\<forall>w. w \<le> ArraySize idx \<longrightarrow> (\<exists>e rel.
               vec_at (rank_index_' idx) (w div kUnitsPerRankIndexEntry) = Some e \<and>
               relative_ones_count chk e (w mod kUnitsPerRankIndexEntry) = Some rel \<and>
               absolute_ones_count e + rel = rank1_spec bits (64 * w))) \<and>
           length (rank_index_' idx) = (ArraySize idx + 7) div 8 + 1 \<and>
           absolute_ones_count (last (rank_index_' idx)) = rank1_spec bits num_bits"
proof -
  let ?idx = "built_index bits num_bits e0 e1"
  let ?A = "StorageSize num_bits"
  have B: "BuildIndex dbg bits num_bits e0 e1 = Some ?idx"
    by (rule BuildIndex_built [OF assms])
  have inv: "\<exists>e rel. vec_at (rank_index_' ?idx) (w div 8) = Some e \<and>
               relative_ones_count chk e (w mod 8) = Some rel \<and>
               absolute_ones_count e + rel = rank1_spec bits (64 * w)"
    if w: "w \<le> ArraySize ?idx" for w
  proof -
    have wA: "w \<le> ?A"
      using w by (simp add: ArraySize_def)
    have b: "w div 8 \<le> (?A + 7) div 8"
      using wA by arith
    have len: "w div 8 < length (built_rank_index bits num_bits)"
      using b by (simp add: built_rank_index_length)
    let ?e = "built_rank_index bits num_bits ! (w div 8)"
    have 1: "vec_at (rank_index_' ?idx) (w div 8) = Some ?e"
      using len by (simp add: vec_at_def)
    have 2: "relative_ones_count chk ?e (w mod 8)
               = Some (cum bits ?A (8 * (w div 8) + w mod 8) - cum bits ?A (8 * (w div 8)))"
      by (rule built_relative [OF assms b]) simp
    have 3: "absolute_ones_count ?e = cum bits ?A (8 * (w div 8))"
      by (rule built_absolute [OF assms b])
    have 4: "cum bits ?A (8 * (w div 8)) \<le> cum bits ?A (8 * (w div 8) + w mod 8)"
      by (rule cum_mono) simp
    have 5: "cum bits ?A (8 * (w div 8) + w mod 8) = rank1_spec bits (64 * w)"
      using wA by (simp add: cum_count rank1_spec_count)
    from 3 4 5 have "absolute_ones_count ?e
        + (cum bits ?A (8 * (w div 8) + w mod 8) - cum bits ?A (8 * (w div 8)))
        = rank1_spec bits (64 * w)"
      by simp
    with 1 2 show ?thesis by blast
  qed
  have "num_bits < 4294967296"
    using assms by (simp add: bit_vector_def)
  then have "rank1_spec bits num_bits < 4294967296"
    using rank1_spec_le [of bits num_bits] by simp
  then have L: "absolute_ones_count (last (rank_index_' ?idx)) = rank1_spec bits num_bits"
    by (simp add: built_rank_index_last terminator_absolute)
  show ?thesis
  proof (intro exI [of _ ?idx] conjI allI impI)
    show "BuildIndex dbg bits num_bits e0 e1 = Some ?idx" by (rule B)
  next
    fix w assume "w \<le> ArraySize ?idx"
    then show "\<exists>e rel. vec_at (rank_index_' ?idx) (w div 8) = Some e \<and>
               relative_ones_count chk e (w mod 8) = Some rel \<and>
               absolute_ones_count e + rel = rank1_spec bits (64 * w)"
      by (rule inv)
  next
    show "length (rank_index_' ?idx) = (ArraySize ?idx + 7) div 8 + 1"
      by (simp add: built_rank_index_length ArraySize_def)
  next
    show "absolute_ones_count (last (rank_index_' ?idx)) = rank1_spec bits num_bits"
      by (rule L)
  qed
qed

theorem BuildIndex_rank_index_invariant_witness:
  "bit_vector [3] 64 \<and>
   (\<exists>idx. BuildIndex True [3] 64 True True = Some idx \<and>
      length (rank_index_' idx) = 2 \<and> absolute_ones_count (last (rank_index_' idx)) = 2 \<and>
      (\<exists>e rel. vec_at (rank_index_' idx) 0 = Some e \<and> relative_ones_count True e 1 = Some rel \<and>
         absolute_ones_count e + rel = 2))"
proof -
  from BuildIndex_rank_index_invariant [OF bit_vector_example, of True True True True]
  obtain idx where B: "BuildIndex True [3] 64 True True = Some idx"
    and inv: "\<And>w. w \<le> ArraySize idx \<Longrightarrow> \<exists>e rel.
               vec_at (rank_index_' idx) (w div 8) = Some e \<and>
               relative_ones_count True e (w mod 8) = Some rel \<and>
               absolute_ones_count e + rel = rank1_spec [3] (64 * w)"
    and len: "length (rank_index_' idx) = (ArraySize idx + 7) div 8 + 1"
    and L: "absolute_ones_count (last (rank_index_' idx)) = rank1_spec [3] 64"
    by blast
  from B have n: "num_bits_' idx = 64"
    by (auto simp add: BuildIndex_built [OF bit_vector_example])
  then have A: "ArraySize idx = 1"
    by (simp add: ArraySize_def StorageSize_def)
  from inv [of 1] A have "\<exists>e rel. vec_at (rank_index_' idx) 0 = Some e \<and>
      relative_ones_count True e 1 = Some rel \<and> absolute_ones_count e + rel = 2"
    by (simp add: rank1_spec_example)
  with B len L A show ?thesis
    by (simp add: bit_vector_example rank1_spec_example)
qed

text \<open>
  C2.  For the index built over a bit vector of \<open>num_bits\<close> bits and every \<open>end \<le> num_bits\<close>,
  \<open>Rank1(end)\<close> is the number of set bits in positions \<open>[0, end)\<close> and \<open>Rank0(end)\<close> is
  \<open>end - Rank1(end)\<close>.  \<open>Rank1(0)\<close> is 0, \<open>Rank1(num_bits)\<close> is the total held by the
  terminator, and for \<open>end\<close> strictly between it is the indexed count of word \<open>end div 64\<close>
  plus the popcount of the low \<open>end mod 64\<close> bits of that word.
\<close>

theorem Rank1_Rank0_correct:
  assumes "bit_vector bits num_bits" and "end' \<le> num_bits"
  shows "\<exists>idx. BuildIndex dbg bits num_bits e0 e1 = Some idx \<and>
     Rank1 chk idx end' = Some (rank1_spec bits end') \<and>
     Rank0 chk idx end' = Some (end' - rank1_spec bits end') \<and>
     Rank1 chk idx 0 = Some 0 \<and>
     Rank1 chk idx num_bits = Some (absolute_ones_count (last (rank_index_' idx))) \<and>
     (0 < end' \<and> end' < num_bits \<longrightarrow>
        (\<exists>sum. GetIndexOnesCount chk idx (end' div 64) = Some sum \<and>
           Rank1 chk idx end' = Some (sum + builtin_popcountll
             (bits ! (end' div 64) AND kLowBitsMasks (end' mod 64)))))"
proof -
  let ?idx = "built_index bits num_bits e0 e1"
  have "num_bits < 4294967296"
    using assms by (simp add: bit_vector_def)
  then have "rank1_spec bits num_bits < 4294967296"
    using rank1_spec_le [of bits num_bits] by simp
  then have L: "absolute_ones_count (last (rank_index_' ?idx)) = rank1_spec bits num_bits"
    by (simp add: built_rank_index_last terminator_absolute)
  have z: "rank1_spec bits 0 = 0"
    by (simp add: rank1_spec_def)
  show ?thesis
  proof (intro exI [of _ ?idx] conjI impI)
    show "BuildIndex dbg bits num_bits e0 e1 = Some ?idx"
      by (rule BuildIndex_built [OF assms(1)])
  next
    show "Rank1 chk ?idx end' = Some (rank1_spec bits end')"
      by (rule Rank1_built [OF assms])
  next
    show "Rank0 chk ?idx end' = Some (end' - rank1_spec bits end')"
      by (rule Rank0_built [OF assms])
  next
    show "Rank1 chk ?idx 0 = Some 0"
      using Rank1_built [OF assms(1), of 0 chk e0 e1] by (simp add: z)
  next
    show "Rank1 chk ?idx num_bits = Some (absolute_ones_count (last (rank_index_' ?idx)))"
      using Rank1_built [OF assms(1), of num_bits chk e0 e1] by (simp only: L order_refl)
  next
    assume "0 < end' \<and> end' < num_bits"
    then have i: "0 < end'" "end' < num_bits" by simp_all
    from Rank1_inside(1) [OF assms(1) i, of chk e0 e1] Rank1_inside(3) [OF assms(1) i, of chk e0 e1]
    show "\<exists>sum. GetIndexOnesCount chk ?idx (end' div 64) = Some sum \<and>
           Rank1 chk ?idx end' = Some (sum + builtin_popcountll
             (bits ! (end' div 64) AND kLowBitsMasks (end' mod 64)))"
      by blast
  qed
qed

theorem Rank1_Rank0_correct_witness:
  "bit_vector [3] 64 \<and> (1 :: nat) \<le> 64 \<and>
   (\<exists>idx. BuildIndex True [3] 64 True True = Some idx \<and>
      Rank1 True idx 1 = Some 1 \<and> Rank0 True idx 1 = Some 0 \<and> Rank1 True idx 0 = Some 0)"
  using Rank1_Rank0_correct [OF bit_vector_example, of 1 True True True True]
  by (auto simp add: bit_vector_example rank1_spec_example1)

text \<open>
  C9.  For the index built over a bit vector of \<open>num_bits\<close> bits: \<open>Select1(k)\<close> is \<open>num_bits\<close>
  for every \<open>k\<close> that is at least the number of set bits, and \<open>Select0(k)\<close> is \<open>num_bits\<close> for
  every \<open>k\<close> that is at least the number of clear bits; on the empty vector \<open>Select1(0)\<close> and
  \<open>Select0(0)\<close> are both 0.
\<close>

theorem Select_exhausted:
  assumes "bit_vector bits num_bits"
  shows "\<exists>idx. BuildIndex dbg bits num_bits e0 e1 = Some idx \<and>
     (\<forall>k. rank1_spec bits num_bits \<le> k \<longrightarrow> Select1 chk idx k = Some num_bits) \<and>
     (\<forall>k. num_bits - rank1_spec bits num_bits \<le> k \<longrightarrow> Select0 chk idx k = Some num_bits) \<and>
     (num_bits = 0 \<longrightarrow> Select1 chk idx 0 = Some 0 \<and> Select0 chk idx 0 = Some 0)"
proof -
  let ?idx = "built_index bits num_bits e0 e1"
  show ?thesis
  proof (intro exI [of _ ?idx] conjI allI impI)
    show "BuildIndex dbg bits num_bits e0 e1 = Some ?idx"
      by (rule BuildIndex_built [OF assms])
  next
    fix k assume "rank1_spec bits num_bits \<le> k"
    then show "Select1 chk ?idx k = Some num_bits"
      by (rule Select1_exhausted [OF assms])
  next
    fix k assume "num_bits - rank1_spec bits num_bits \<le> k"
    then show "Select0 chk ?idx k = Some num_bits"
      by (rule Select0_exhausted [OF assms])
  next
    assume z: "num_bits = 0"
    then have "rank1_spec bits num_bits \<le> 0"
      by (simp add: rank1_spec_def)
    then have "Select1 chk ?idx 0 = Some num_bits"
      by (rule Select1_exhausted [OF assms])
    then show "Select1 chk ?idx 0 = Some 0"
      by (simp only: z)
  next
    assume z: "num_bits = 0"
    then have "num_bits - rank1_spec bits num_bits \<le> 0"
      by simp
    then have "Select0 chk ?idx 0 = Some num_bits"
      by (rule Select0_exhausted [OF assms])
    then show "Select0 chk ?idx 0 = Some 0"
      by (simp only: z)
  qed
qed

theorem Select_exhausted_witness:
  "bit_vector [3] 64 \<and> bit_vector [] 0 \<and>
   (\<exists>idx. BuildIndex True [3] 64 True True = Some idx \<and>
      Select1 True idx 2 = Some 64 \<and> Select0 True idx 62 = Some 64) \<and>
   (\<exists>idx. BuildIndex True [] 0 True True = Some idx \<and>
      Select1 True idx 0 = Some 0 \<and> Select0 True idx 0 = Some 0)"
  using Select_exhausted [OF bit_vector_example, of True True True True]
    Select_exhausted [OF bit_vector_empty, of True "[]" True True True]
  by (auto simp add: bit_vector_example bit_vector_empty rank1_spec_example)

text \<open>
  C10, as amended.  With the checks compiled out, \<open>Rank1\<close> on a built index returns for every
  \<open>end\<close>, and for every \<open>end \<ge> num_bits\<close> it returns \<open>GetOnesCount()\<close>, the total held by the
  terminator, whatever the bit buffer holds (so it does not read the buffer).  With the checks
  compiled in, \<open>Rank1\<close> returns for every \<open>end \<le> num_bits\<close> and stops at
  \<open>DFST_CHECK_LE(end, Bits())\<close> for every \<open>end > num_bits\<close>.
\<close>

theorem Rank1_clamps_when_checks_are_off:
  assumes "bit_vector bits num_bits"
  shows "\<exists>idx. BuildIndex dbg bits num_bits e0 e1 = Some idx \<and>
     (\<forall>end'. \<exists>r. Rank1 False idx end' = Some r) \<and>
     (\<forall>end' buf. num_bits \<le> end' \<longrightarrow>
        Rank1 False (idx\<lparr>bits_' := buf\<rparr>) end' = GetOnesCount idx) \<and>
     GetOnesCount idx = Some (rank1_spec bits num_bits) \<and>
     (\<forall>end'. end' \<le> num_bits \<longrightarrow> (\<exists>r. Rank1 True idx end' = Some r)) \<and>
     (\<forall>end'. num_bits < end' \<longrightarrow> Rank1 True idx end' = None)"
proof -
  let ?idx = "built_index bits num_bits e0 e1"
  have G: "GetOnesCount ?idx = Some (rank1_spec bits num_bits)"
    by (rule GetOnesCount_built [OF assms])
  show ?thesis
  proof (intro exI [of _ ?idx] conjI allI impI)
    show "BuildIndex dbg bits num_bits e0 e1 = Some ?idx"
      by (rule BuildIndex_built [OF assms])
  next
    fix end'
    show "\<exists>r. Rank1 False ?idx end' = Some r"
    proof (cases "end' \<le> num_bits")
      case True
      then show ?thesis
        using Rank1_built [OF assms True, of False e0 e1] by simp
    next
      case False
      then have "num_bits \<le> end'" by simp
      from Rank1_beyond [OF assms this, where buf = bits] show ?thesis
        by (simp add: built_index_bits_update)
    qed
  next
    fix end' buf assume "num_bits \<le> end'"
    then show "Rank1 False (?idx\<lparr>bits_' := buf\<rparr>) end' = GetOnesCount ?idx"
      by (simp only: G Rank1_beyond [OF assms])
  next
    show "GetOnesCount ?idx = Some (rank1_spec bits num_bits)"
      by (rule G)
  next
    fix end' assume "end' \<le> num_bits"
    then show "\<exists>r. Rank1 True ?idx end' = Some r"
      using Rank1_built [OF assms, of end' True e0 e1] by simp
  next
    fix end' assume "num_bits < end'"
    then show "Rank1 True ?idx end' = None"
      by (simp add: Rank1_debug_beyond)
  qed
qed

theorem Rank1_clamps_when_checks_are_off_witness:
  "bit_vector [3] 64 \<and>
   (\<exists>idx. BuildIndex True [3] 64 False False = Some idx \<and>
      Rank1 False idx 1000 = Some 2 \<and> Rank1 False (idx\<lparr>bits_' := []\<rparr>) 64 = Some 2)"
proof -
  from Rank1_clamps_when_checks_are_off [OF bit_vector_example, of True False False]
  obtain idx where B: "BuildIndex True [3] 64 False False = Some idx"
    and R: "\<And>end' buf. 64 \<le> end' \<Longrightarrow> Rank1 False (idx\<lparr>bits_' := buf\<rparr>) end' = GetOnesCount idx"
    and G: "GetOnesCount idx = Some (rank1_spec [3] 64)"
    by blast
  have "idx\<lparr>bits_' := bits_' idx\<rparr> = idx" by simp
  with R [of 1000 "bits_' idx"] R [of 64 "[]"] G B show ?thesis
    by (simp add: bit_vector_example rank1_spec_example)
qed

text \<open>
  C10 as stated promises a result for every \<open>end\<close>.  With the checks compiled in, the index
  of a 64-bit vector stops on \<open>Rank1(65)\<close>.
\<close>

theorem Rank1_beyond_num_bits_counterexample:
  "\<exists>idx. BuildIndex True [3] 64 False False = Some idx \<and> Rank1 True idx 65 = None"
  using BuildIndex_built [OF bit_vector_example, of True False False]
  by (simp add: Rank1_debug_beyond)


end
